theory Spec2Isabelle
  imports Complex_Main
begin

section \<open>Grey images\<close>

text \<open>
  Modelled from the spec: \<^verbatim>\<open>irtkGreyImage\<close> and \<^verbatim>\<open>irtkGreyPixel\<close> are declared in
  headers outside the two source files. The spec describes a scalar volume as a 4D array
  (x, y, z, t) of integer intensity values with its dimensions as attributes. The voxels
  are kept as one contiguous list, x running fastest, then y, z and t, which is the order
  in which a pointer obtained from \<^verbatim>\<open>GetPointerToVoxels\<close> walks them. The pixel
  type is a typedef of those headers; pixels are unbounded integers here. An access
  outside the extent of the image reads or writes outside the buffer in the source; the
  properties below are about accesses inside the extent.
\<close>

type_synonym irtkGreyPixel = int

record irtkGreyImage =
  GetX :: int
  GetY :: int
  GetZ :: int
  GetT :: int
  GetPointerToVoxels :: "irtkGreyPixel list"

definition GetNumberOfVoxels :: "irtkGreyImage \<Rightarrow> int" where
  "GetNumberOfVoxels img = GetX img * GetY img * GetZ img * GetT img"

definition VoxelToIndex :: "irtkGreyImage \<Rightarrow> int \<Rightarrow> int \<Rightarrow> int \<Rightarrow> int \<Rightarrow> nat" where
  "VoxelToIndex img x y z t =
     nat (((t * GetZ img + z) * GetY img + y) * GetX img + x)"

text \<open>\<^verbatim>\<open>image(x, y, z, t)\<close> read.\<close>

definition Get :: "irtkGreyImage \<Rightarrow> int \<Rightarrow> int \<Rightarrow> int \<Rightarrow> int \<Rightarrow> irtkGreyPixel" where
  "Get img x y z t = GetPointerToVoxels img ! VoxelToIndex img x y z t"

text \<open>\<^verbatim>\<open>image(x, y, z, t) = v\<close> write.\<close>

definition Put :: "irtkGreyImage \<Rightarrow> int \<Rightarrow> int \<Rightarrow> int \<Rightarrow> int \<Rightarrow> irtkGreyPixel \<Rightarrow> irtkGreyImage" where
  "Put img x y z t v =
     img\<lparr>GetPointerToVoxels := (GetPointerToVoxels img)[VoxelToIndex img x y z t := v]\<rparr>"

text \<open>An image whose buffer holds exactly one pixel per voxel of its (positive) extent.\<close>

definition image_ok :: "irtkGreyImage \<Rightarrow> bool" where
  "image_ok img \<longleftrightarrow>
     0 < GetX img \<and> 0 < GetY img \<and> 0 < GetZ img \<and> 0 < GetT img \<and>
     int (length (GetPointerToVoxels img)) = GetNumberOfVoxels img"

definition in_image :: "irtkGreyImage \<Rightarrow> int \<Rightarrow> int \<Rightarrow> int \<Rightarrow> int \<Rightarrow> bool" where
  "in_image img x y z t \<longleftrightarrow>
     0 \<le> x \<and> x < GetX img \<and> 0 \<le> y \<and> y < GetY img \<and>
     0 \<le> z \<and> z < GetZ img \<and> 0 \<le> t \<and> t < GetT img"

section \<open>Guessing resolution and padding\<close>

text \<open>
  The voxel sizes are doubles in the source. The two functions only compare their
  arguments and return one of them, so the doubles are modelled as reals.
\<close>

definition GuessResolution :: "real \<Rightarrow> real \<Rightarrow> real \<Rightarrow> real" where
  "GuessResolution xsize ysize zsize =
     (if xsize \<ge> ysize \<and> xsize \<ge> zsize then xsize
      else if ysize \<ge> xsize \<and> ysize \<ge> zsize then ysize
      else zsize)"

definition GuessResolution2 :: "real \<Rightarrow> real \<Rightarrow> real" where
  "GuessResolution2 xsize ysize = (if xsize > ysize then xsize else ysize)"

text \<open>
  \<^verbatim>\<open>MIN_GREY\<close> is a macro defined outside the source files; it is a parameter here.
  The three-argument \<^verbatim>\<open>image(x, y, z)\<close> reads time frame 0.
\<close>

definition GuessPadding :: "int \<Rightarrow> irtkGreyImage \<Rightarrow> int" where
  "GuessPadding MIN_GREY img =
     (let padding = True;
          padding = (if Get img 0 0 0 0 \<noteq> Get img (GetX img - 1) 0 0 0
                     then False else padding);
          padding = (if Get img 0 0 0 0 \<noteq> Get img 0 (GetY img - 1) 0 0
                     then False else padding);
          padding = (if Get img 0 0 0 0 \<noteq> Get img 0 0 (GetZ img - 1) 0
                     then False else padding);
          padding = (if Get img 0 0 0 0 \<noteq> Get img (GetX img - 1) (GetY img - 1) 0 0
                     then False else padding);
          padding = (if Get img 0 0 0 0 \<noteq> Get img 0 (GetY img - 1) (GetZ img - 1) 0
                     then False else padding);
          padding = (if Get img 0 0 0 0 \<noteq> Get img (GetX img - 1) 0 (GetZ img - 1) 0
                     then False else padding);
          padding = (if Get img 0 0 0 0 \<noteq>
                        Get img (GetX img - 1) (GetY img - 1) (GetZ img - 1) 0
                     then False else padding)
      in if padding = False then MIN_GREY else Get img 0 0 0 0)"

section \<open>Number of histogram bins\<close>

text \<open>
  \<^verbatim>\<open>int(ceil(range/(double)width))\<close> and \<^verbatim>\<open>int(*ptr/(double)width)\<close> divide two
  integers as doubles. A double has a 53-bit significand, so the correctly rounded
  quotient of two 32-bit integers lies strictly between the same two neighbouring
  integers as the exact quotient (or is that integer when the division is exact); the
  ceiling and the truncation are therefore those of the exact quotient, which is what
  the model computes on the reals. The conversion \<^verbatim>\<open>int(d)\<close> truncates towards zero.
\<close>

text \<open>
  The variables \<^verbatim>\<open>range\<close>, \<^verbatim>\<open>nbins\<close> and \<^verbatim>\<open>width\<close> are 32-bit
  \<^verbatim>\<open>int\<close>s. The result of an addition or subtraction of two of them is written
  with the wrap-around: reduced modulo \<open>2\<^sup>3\<^sup>2\<close> into the range from \<open>-2\<^sup>3\<^sup>1\<close> to
  \<open>2\<^sup>3\<^sup>1 - 1\<close>.
\<close>

definition int32 :: "int \<Rightarrow> int" where
  "int32 k = (k + 2147483648) mod 4294967296 - 2147483648"

definition int_of_double :: "real \<Rightarrow> int" where
  "int_of_double d = (if d \<ge> 0 then \<lfloor>d\<rfloor> else \<lceil>d\<rceil>)"

text \<open>
  The loop \<^verbatim>\<open>while (int(ceil(range/(double)width)) > maxbin) width++\<close>. It does not
  end for every argument (with \<^verbatim>\<open>maxbin = 0\<close> and a positive range the test stays
  true), so not returning is the value \<^term>\<open>None\<close>.
\<close>

partial_function (option) width_loop :: "int \<Rightarrow> int \<Rightarrow> int \<Rightarrow> int option" where
  "width_loop irange maxbin width =
     (if int_of_double (real_of_int \<lceil>real_of_int irange / real_of_int width\<rceil>) > maxbin
      then width_loop irange maxbin (int32 (width + 1))
      else Some width)"

declare width_loop.simps [code]

text \<open>The body of the rescaling loop, applied to the pixel under \<^verbatim>\<open>ptr\<close>.\<close>

definition rescale :: "int \<Rightarrow> irtkGreyPixel \<Rightarrow> irtkGreyPixel" where
  "rescale width p =
     (if p > 0 then int_of_double (real_of_int p / real_of_int width) else p)"

text \<open>
  The result is the returned number of bins together with the image as the call leaves
  it; the pointer walk over all voxels is the map over the buffer.
\<close>

definition irtkCalculateNumberOfBins ::
  "irtkGreyImage \<Rightarrow> int \<Rightarrow> int \<Rightarrow> int \<Rightarrow> (int \<times> irtkGreyImage) option" where
  "irtkCalculateNumberOfBins img maxbin imin imax =
     (let irange = int32 (int32 (imax - imin) + 1);
          nbins = int32 (int32 (imax - imin) + 1);
          width = 1
      in case (if maxbin > 0
               then (case width_loop irange maxbin width of
                       None \<Rightarrow> None
                     | Some width \<Rightarrow>
                         Some (int_of_double (real_of_int \<lceil>real_of_int irange / real_of_int width\<rceil>),
                               width))
               else Some (nbins, width)) of
           None \<Rightarrow> None
         | Some (nbins, width) \<Rightarrow>
             Some (nbins,
                   img\<lparr>GetPointerToVoxels := map (rescale width) (GetPointerToVoxels img)\<rparr>))"

text \<open>The overload for an array of \<^verbatim>\<open>n\<close> images: the same width rescales each of them.\<close>

definition irtkCalculateNumberOfBinsN ::
  "irtkGreyImage list \<Rightarrow> int \<Rightarrow> int \<Rightarrow> int \<Rightarrow> int \<Rightarrow> (int \<times> irtkGreyImage list) option" where
  "irtkCalculateNumberOfBinsN images maxbin imin imax n =
     (let irange = int32 (int32 (imax - imin) + 1);
          nbins = int32 (int32 (imax - imin) + 1);
          width = 1
      in case (if maxbin > 0
               then (case width_loop irange maxbin width of
                       None \<Rightarrow> None
                     | Some width \<Rightarrow>
                         Some (int_of_double (real_of_int \<lceil>real_of_int irange / real_of_int width\<rceil>),
                               width))
               else Some (nbins, width)) of
           None \<Rightarrow> None
         | Some (nbins, width) \<Rightarrow>
             Some (nbins,
                   map (\<lambda>img. img\<lparr>GetPointerToVoxels :=
                                         map (rescale width) (GetPointerToVoxels img)\<rparr>)
                       (take (nat n) images)
                   @ drop (nat n) images))"

section \<open>Counting loops\<close>

text \<open>
  The loop \<^verbatim>\<open>for (i = a; i < n; i++) body\<close>, for a body that leaves \<^verbatim>\<open>i\<close> and
  the value of the bound \<^verbatim>\<open>n\<close> alone (the bounds of the loops below are extents of the
  image or of the lattice, which no loop body changes).
\<close>

function for_loop :: "int \<Rightarrow> int \<Rightarrow> (int \<Rightarrow> 's \<Rightarrow> 's) \<Rightarrow> 's \<Rightarrow> 's" where
  "for_loop i n body s = (if i < n then for_loop (i + 1) n body (body i s) else s)"
  by pat_completeness auto
termination
  by (relation "measure (\<lambda>(i, n, body, s). nat (n - i))") auto

declare for_loop.simps [simp del]

section \<open>Padding distances\<close>

text \<open>
  The first loop nest of \<^verbatim>\<open>irtkPadding(image, padding)\<close>: the pair \<open>(n, m)\<close> of the
  numbers of padded (negative) and unpadded voxels.
\<close>

definition count_padded :: "irtkGreyImage \<Rightarrow> int \<times> int" where
  "count_padded img =
     for_loop 0 (GetT img) (\<lambda>t. for_loop 0 (GetX img) (\<lambda>i. for_loop 0 (GetY img) (\<lambda>j.
       for_loop 0 (GetZ img) (\<lambda>k (n, m).
         if Get img i j k t < 0 then (n + 1, m) else (n, m + 1))))) (0, 0)"

text \<open>
  \<^verbatim>\<open>for (l = i; l < image.GetX(); l++) if (image(l, j, k, t) != -1) break;\<close> gives the
  value of \<^verbatim>\<open>l\<close> after the loop.
\<close>

function scan_run :: "irtkGreyImage \<Rightarrow> int \<Rightarrow> int \<Rightarrow> int \<Rightarrow> int \<Rightarrow> int" where
  "scan_run img j k t l =
     (if l < GetX img
      then (if Get img l j k t \<noteq> - 1 then l else scan_run img j k t (l + 1))
      else l)"
  by pat_completeness auto
termination
  by (relation "measure (\<lambda>(img, j, k, t, l). nat (GetX img - l))") auto

declare scan_run.simps [simp del]

text \<open>\<^verbatim>\<open>for (p = i; p < l; p++) image(p, j, k, t) = - (l - p);\<close>\<close>

definition fill_run :: "irtkGreyImage \<Rightarrow> int \<Rightarrow> int \<Rightarrow> int \<Rightarrow> int \<Rightarrow> int \<Rightarrow> irtkGreyImage" where
  "fill_run img j k t l i = for_loop i l (\<lambda>p img. Put img p j k t (- (l - p))) img"

lemma GetX_Put: "GetX (Put img x y z t v) = GetX img"
  by (simp add: Put_def)

lemma GetX_for_loop_Put:
  "GetX (for_loop i l (\<lambda>p img. Put img p j k t (f p)) img) = GetX img"
  by (induction i l "\<lambda>p img. Put img p j k t (f p)" img rule: for_loop.induct)
     (subst for_loop.simps, simp add: GetX_Put)

lemma GetX_fill_run: "GetX (fill_run img j k t l i) = GetX img"
  by (simp add: fill_run_def GetX_for_loop_Put)

lemma scan_run_ge: "l \<le> scan_run img j k t l"
proof (induction img j k t l rule: scan_run.induct)
  case (1 img j k t l)
  show ?case
  proof (cases "l < GetX img \<and> Get img l j k t = - 1")
    case True
    with "1" have "l + 1 \<le> scan_run img j k t (l + 1)" by simp
    with True show ?thesis by (subst scan_run.simps) simp
  next
    case False
    then show ?thesis by (subst scan_run.simps) auto
  qed
qed

lemma scan_run_gt:
  "l < GetX img \<Longrightarrow> Get img l j k t = - 1 \<Longrightarrow> l < scan_run img j k t l"
  using scan_run_ge [of "l + 1" img j k t] by (subst scan_run.simps) simp

text \<open>
  The loop over \<^verbatim>\<open>i\<close> along one row: at a voxel with value \<open>-1\<close> the run is
  scanned and filled and \<^verbatim>\<open>i\<close> is set to \<^verbatim>\<open>l - 1\<close> before the increment.
\<close>

function row_loop :: "irtkGreyImage \<Rightarrow> int \<Rightarrow> int \<Rightarrow> int \<Rightarrow> int \<Rightarrow> irtkGreyImage" where
  "row_loop img j k t i =
     (if i < GetX img
      then (if Get img i j k t = - 1
            then (let l = scan_run img j k t i;
                      img = fill_run img j k t l i;
                      i = l - 1
                  in row_loop img j k t (i + 1))
            else row_loop img j k t (i + 1))
      else img)"
  by pat_completeness auto
termination
proof (relation "measure (\<lambda>(img, j, k, t, i). nat (GetX img - i))")
  fix img :: irtkGreyImage and j k t i x xa xb
  assume "i < GetX img" "Get img i j k t = - 1" "x = scan_run img j k t i"
    "xa = fill_run img j k t x i" "xb = x - 1"
  then show "((xa, j, k, t, xb + 1), img, j, k, t, i)
               \<in> measure (\<lambda>(img, j, k, t, i). nat (GetX img - i))"
    using scan_run_gt [of i img j k t] by (simp add: GetX_fill_run)
qed auto

declare row_loop.simps [simp del]

text \<open>
  \<^verbatim>\<open>irtkPadding(image, padding)\<close>: the image as the call leaves it. The two lines
  printed when \<^verbatim>\<open>n > 0\<close> are not part of the model.
\<close>

definition irtkPadding :: "irtkGreyImage \<Rightarrow> irtkGreyPixel \<Rightarrow> irtkGreyImage" where
  "irtkPadding img padding =
     (let (n, m) = count_padded img
      in if n > 0
         then for_loop 0 (GetT img) (\<lambda>t img. for_loop 0 (GetZ img) (\<lambda>k img.
                for_loop 0 (GetY img) (\<lambda>j img. row_loop img j k t 0) img) img) img
         else img)"

section \<open>Passive control points\<close>

text \<open>
  Modelled from the spec: \<^verbatim>\<open>irtkFreeFormTransformation3D\<close> is declared outside the
  source files. The spec describes the lattice as exposing a per-point active or passive
  status, the conversion from lattice coordinates to an index, and a bounding-box query
  (the voxels influenced by a control point). The two queries depend on the geometry of
  the lattice only and are fields of the record; \<^verbatim>\<open>PutStatus\<close> writes the status of
  one control point.
\<close>

datatype Status = Active | Passive

record irtkFreeFormTransformation3D =
  LatticeX :: int
  LatticeY :: int
  LatticeZ :: int
  LatticeToIndex :: "int \<Rightarrow> int \<Rightarrow> int \<Rightarrow> int"
  BoundingBox :: "irtkGreyImage \<Rightarrow> int \<Rightarrow> int \<times> int \<times> int \<times> int \<times> int \<times> int"
  GetStatus :: "int \<Rightarrow> int \<Rightarrow> int \<Rightarrow> Status"

definition PutStatus ::
  "irtkFreeFormTransformation3D \<Rightarrow> int \<Rightarrow> int \<Rightarrow> int \<Rightarrow> Status \<Rightarrow> irtkFreeFormTransformation3D" where
  "PutStatus ffd i j k s =
     ffd\<lparr>GetStatus := (\<lambda>i' j' k'. if i' = i \<and> j' = j \<and> k' = k then s else GetStatus ffd i' j' k')\<rparr>"

text \<open>
  The flag \<^verbatim>\<open>ok\<close> after the four loops over the time frames and the bounding box
  \<open>(x1, y1, z1, x2, y2, z2)\<close>.
\<close>

definition box_ok ::
  "irtkGreyImage \<Rightarrow> irtkGreyPixel \<Rightarrow> int \<times> int \<times> int \<times> int \<times> int \<times> int \<Rightarrow> bool" where
  "box_ok img padding box =
     (case box of (x1, y1, z1, x2, y2, z2) \<Rightarrow>
        for_loop 0 (GetT img) (\<lambda>t. for_loop z1 (z2 + 1) (\<lambda>z. for_loop y1 (y2 + 1) (\<lambda>y.
          for_loop x1 (x2 + 1) (\<lambda>x ok.
            if Get img x y z t > padding then True else ok)))) False)"

text \<open>\<^verbatim>\<open>irtkPadding(image, padding, ffd)\<close>: the lattice as the call leaves it.\<close>

definition irtkPadding_ffd ::
  "irtkGreyImage \<Rightarrow> irtkGreyPixel \<Rightarrow> irtkFreeFormTransformation3D \<Rightarrow> irtkFreeFormTransformation3D" where
  "irtkPadding_ffd img padding ffd =
     for_loop 0 (LatticeX ffd) (\<lambda>i ffd. for_loop 0 (LatticeY ffd) (\<lambda>j ffd.
       for_loop 0 (LatticeZ ffd) (\<lambda>k ffd.
         let index = LatticeToIndex ffd i j k;
             box = BoundingBox ffd img index;
             ok = box_ok img padding box
         in if ok = False then PutStatus ffd i j k Passive else ffd) ffd) ffd) ffd"

section \<open>Demons force\<close>

datatype irtkDemonsMode = AdditiveDemons | CompositiveDemons

text \<open>
  Modelled from the spec: \<^verbatim>\<open>irtkDemonsRegistration::Force\<close> is declared in the header
  and defined outside the source files. The spec gives the force at a voxel \<open>v\<close> with
  displacement \<open>d(v)\<close> as proportional to
  \<open>(target(v) - source(v + d(v))) * gradient(v) / (|gradient(v)|\<^sup>2 + (target(v) - source(v + d(v)))\<^sup>2)\<close>,
  with an epsilon floor guarding the denominator (a degenerate denominator gives the
  zero force), and zero at voxels marked as padding. The additive mode uses the gradient
  of the target image, the compositive mode the gradient of the source image at the
  displaced position. The interpolation service is a parameter: \<open>source\<close> and
  \<open>sourceGradient\<close> take a continuous position. Intensities are doubles in the header;
  they are modelled as reals.
\<close>

type_synonym vec3 = "real \<times> real \<times> real"

definition displaced :: "int \<times> int \<times> int \<Rightarrow> vec3 \<Rightarrow> vec3" where
  "displaced v d =
     (case (v, d) of ((x, y, z), (dx, dy, dz)) \<Rightarrow>
        (real_of_int x + dx, real_of_int y + dy, real_of_int z + dz))"

definition Force ::
  "irtkDemonsMode \<Rightarrow> real \<Rightarrow> real \<Rightarrow> (int \<times> int \<times> int \<Rightarrow> bool) \<Rightarrow>
   (int \<times> int \<times> int \<Rightarrow> real) \<Rightarrow> (vec3 \<Rightarrow> real) \<Rightarrow>
   (int \<times> int \<times> int \<Rightarrow> vec3) \<Rightarrow> (vec3 \<Rightarrow> vec3) \<Rightarrow>
   (int \<times> int \<times> int \<Rightarrow> vec3) \<Rightarrow> int \<times> int \<times> int \<Rightarrow> vec3" where
  "Force mode factor epsilon padded target source targetGradient sourceGradient d v =
     (let diff = target v - source (displaced v (d v));
          (gx, gy, gz) = (case mode of
                            AdditiveDemons \<Rightarrow> targetGradient v
                          | CompositiveDemons \<Rightarrow> sourceGradient (displaced v (d v)));
          denom = gx * gx + gy * gy + gz * gz + diff * diff
      in if padded v \<or> denom < epsilon then (0, 0, 0)
         else (factor * diff * gx / denom, factor * diff * gy / denom,
               factor * diff * gz / denom))"

section \<open>Reading a parameter line\<close>

text \<open>
  \<^verbatim>\<open>read_line\<close> works on a \<^verbatim>\<open>std::istream\<close>. The stream of the C++ standard
  library is modelled by the characters not yet extracted and the two state flags that
  \<^verbatim>\<open>read_line\<close> can observe or cause: \<^verbatim>\<open>eofbit\<close>, set when an extraction runs
  into the end of the input, and \<^verbatim>\<open>failbit\<close>, set when an extraction stores no
  character or fills the buffer before the end of the line.
\<close>

record istream =
  rdbuf :: string
  eofbit :: bool
  failbit :: bool

definition eof :: "istream \<Rightarrow> bool" where
  "eof ins = eofbit ins"

text \<open>
  The extraction loop of \<^verbatim>\<open>getline\<close> with room for \<open>n\<close> more characters: it stops
  at the end of the input, at the newline (extracted but not stored), or when the room
  is used up, in this order of tests.
\<close>

datatype stop = AtEof | AtDelim | AtLimit

fun extract_line :: "nat \<Rightarrow> string \<Rightarrow> string \<times> string \<times> stop" where
  "extract_line n [] = ([], [], AtEof)"
| "extract_line n (c # cs) =
     (if c = CHR 0x0A then ([], cs, AtDelim)
      else if n = 0 then ([], c # cs, AtLimit)
      else (case extract_line (n - 1) cs of (b, rest, st) \<Rightarrow> (c # b, rest, st)))"

text \<open>
  \<^verbatim>\<open>in.getline(buffer, n)\<close>: the characters stored in the buffer (a terminating NUL
  follows them) and the stream afterwards. On a stream that is not good nothing is
  extracted, the buffer holds the empty string and \<^verbatim>\<open>failbit\<close> is set. Otherwise at
  most \<open>n - 1\<close> characters are stored; \<^verbatim>\<open>failbit\<close> is set when the room is used up
  before the newline or when nothing at all was extracted.
\<close>

definition getline :: "istream \<Rightarrow> nat \<Rightarrow> string \<times> istream" where
  "getline ins n =
     (if eofbit ins \<or> failbit ins then ([], ins\<lparr>failbit := True\<rparr>)
      else (case extract_line (n - 1) (rdbuf ins) of (b, rest, st) \<Rightarrow>
              (b, \<lparr>rdbuf = rest, eofbit = (st = AtEof),
                   failbit = (st = AtLimit \<or> (st = AtEof \<and> b = []))\<rparr>)))"

text \<open>
  The C string held by a buffer ends at the first NUL: \<^verbatim>\<open>strlen\<close>, \<^verbatim>\<open>strchr\<close>
  (the offset of the first occurrence, \<^term>\<open>None\<close> for the null pointer) and the
  character \<^verbatim>\<open>buffer[0]\<close>.
\<close>

definition c_str :: "string \<Rightarrow> string" where
  "c_str buffer = takeWhile (\<lambda>c. c \<noteq> CHR 0x00) buffer"

definition strlen :: "string \<Rightarrow> nat" where
  "strlen buffer = length (c_str buffer)"

fun strchr :: "string \<Rightarrow> char \<Rightarrow> nat option" where
  "strchr [] ch = (if ch = CHR 0x00 then Some 0 else None)"
| "strchr (c # cs) ch =
     (if c = ch then Some 0
      else if c = CHR 0x00 then None
      else map_option Suc (strchr cs ch))"

definition first_char :: "string \<Rightarrow> char" where
  "first_char buffer = (case buffer of [] \<Rightarrow> CHR 0x00 | c # cs \<Rightarrow> c)"

text \<open>
  \<^verbatim>\<open>do { buffer2++; } while ((*buffer2 == ' ') || (*buffer2 == '\t'));\<close> started with
  \<^verbatim>\<open>buffer2\<close> at offset \<open>i - 1\<close>: the offset at which it stops. The character at offset
  \<open>length buffer\<close> is the terminating NUL.
\<close>

function skip_blanks :: "string \<Rightarrow> nat \<Rightarrow> nat" where
  "skip_blanks buffer i =
     (if i < length buffer \<and> (buffer ! i = CHR '' '' \<or> buffer ! i = CHR 0x09)
      then skip_blanks buffer (i + 1) else i)"
  by pat_completeness auto
termination
  by (relation "measure (\<lambda>(buffer, i). length buffer - i)") auto

declare skip_blanks.simps [simp del]

text \<open>
  A call of \<^verbatim>\<open>read_line\<close> either returns, with its return value, the stream, the
  contents of \<^verbatim>\<open>buffer1\<close> and the pointer \<^verbatim>\<open>buffer2\<close> (an offset into
  \<^verbatim>\<open>buffer1\<close>) as it leaves them, or ends the process through \<^verbatim>\<open>exit\<close> with a
  status after writing a message to \<^verbatim>\<open>cerr\<close>. The loop does not end on every
  stream, so a call that never returns is the value \<^term>\<open>None\<close>. The code after the
  loop runs once, when the loop is left, and is part of the last iteration here.
\<close>

datatype outcome = Return int istream string "nat option" | Exit int string

partial_function (option) read_line :: "istream \<Rightarrow> string \<Rightarrow> nat option \<Rightarrow> outcome option" where
  "read_line ins buffer1 buffer2 =
     (if eof ins = True then Some (Return 0 ins buffer1 buffer2)
      else (case getline ins 255 of (buffer1, ins) \<Rightarrow>
        let c = first_char buffer1
        in if strlen buffer1 = 0 \<or> c = CHR ''#'' \<or> c = CHR 0x0D
           then read_line ins buffer1 buffer2
           else (case strchr buffer1 (CHR ''='') of
                   None \<Rightarrow> Some (Exit 1 (''No valid line format'' @ [CHR 0x0A]))
                 | Some p \<Rightarrow>
                     let buffer2 = skip_blanks buffer1 (p + 1)
                     in Some (Return (int (strlen buffer1)) ins buffer1 (Some buffer2)))))"

declare read_line.simps [code]

text \<open>A freshly opened stream over the characters \<open>cs\<close>.\<close>

definition istream_of :: "string \<Rightarrow> istream" where
  "istream_of cs = \<lparr>rdbuf = cs, eofbit = False, failbit = False\<rparr>"

section \<open>Auxiliary notions for the proofs\<close>

text \<open>The offset of a voxel in the buffer, as an integer.\<close>

definition voxel_offset :: "irtkGreyImage \<Rightarrow> int \<Rightarrow> int \<Rightarrow> int \<Rightarrow> int \<Rightarrow> int" where
  "voxel_offset img x y z t = ((t * GetZ img + z) * GetY img + y) * GetX img + x"

text \<open>Two images of the same extent and buffer length.\<close>

definition same_shape :: "irtkGreyImage \<Rightarrow> irtkGreyImage \<Rightarrow> bool" where
  "same_shape a b \<longleftrightarrow>
     GetX a = GetX b \<and> GetY a = GetY b \<and> GetZ a = GetZ b \<and> GetT a = GetT b \<and>
     length (GetPointerToVoxels a) = length (GetPointerToVoxels b)"

text \<open>
  The image \<open>s\<close> is \<open>img\<close> with the runs of \<open>-1\<close> replaced by distances in the rows
  \<open>(y, z, t)\<close> of \<open>D\<close>, and as \<open>img\<close> elsewhere.
\<close>

definition distances_in :: "irtkGreyImage \<Rightarrow> (int \<times> int \<times> int) set \<Rightarrow> irtkGreyImage \<Rightarrow> bool" where
  "distances_in img D s \<longleftrightarrow>
     same_shape s img \<and>
     (\<forall>x y z t. in_image img x y z t \<longrightarrow>
        Get s x y z t =
          (if (y, z, t) \<in> D \<and> Get img x y z t = - 1 then - (scan_run img y z t x - x)
           else Get img x y z t))"

text \<open>
  The lattice after the control points in \<open>D\<close> have been visited by the loop body.
\<close>

definition visited ::
  "irtkGreyImage \<Rightarrow> irtkGreyPixel \<Rightarrow> irtkFreeFormTransformation3D \<Rightarrow> (int \<times> int \<times> int) set \<Rightarrow>
   irtkFreeFormTransformation3D" where
  "visited img padding ffd D =
     ffd\<lparr>GetStatus := (\<lambda>i j k.
        if (i, j, k) \<in> D \<and> \<not> box_ok img padding (BoundingBox ffd img (LatticeToIndex ffd i j k))
        then Passive else GetStatus ffd i j k)\<rparr>"

text \<open>
  The text of a list of lines, each ended by a newline; a line that fits the buffer of
  255 bytes and that the loop of \<^verbatim>\<open>read_line\<close> skips; a line that the loop accepts.
\<close>

definition text_lines :: "string list \<Rightarrow> string" where
  "text_lines ls = concat (map (\<lambda>l. l @ [CHR 0x0A]) ls)"

definition skippable :: "string \<Rightarrow> bool" where
  "skippable l \<longleftrightarrow>
     CHR 0x0A \<notin> set l \<and> length l \<le> 254 \<and>
     (strlen l = 0 \<or> first_char l = CHR ''#'' \<or> first_char l = CHR 0x0D)"

definition acceptable :: "string \<Rightarrow> bool" where
  "acceptable l \<longleftrightarrow>
     CHR 0x0A \<notin> set l \<and>
     \<not> (strlen l = 0 \<or> first_char l = CHR ''#'' \<or> first_char l = CHR 0x0D)"

section \<open>Properties of the guesses\<close>

text \<open>
  C2. For all real voxel sizes, the three-argument \<^verbatim>\<open>GuessResolution\<close> returns the
  maximum of its three arguments and the two-argument overload the maximum of its two.
\<close>

theorem GuessResolution_is_max:
  "GuessResolution xsize ysize zsize = max xsize (max ysize zsize) \<and>
   GuessResolution2 xsize ysize = max xsize ysize"
  by (simp add: GuessResolution_def GuessResolution2_def max_def)

text \<open>
  C1. For an image with positive dimensions, \<^verbatim>\<open>GuessPadding\<close> returns the intensity of
  the corner voxel (0,0,0) if all eight corner voxels of the volume carry the same
  intensity, and the sentinel \<^verbatim>\<open>MIN_GREY\<close> otherwise.
\<close>

theorem GuessPadding_corners:
  assumes "0 < GetX img" and "0 < GetY img" and "0 < GetZ img"
  shows "GuessPadding MIN_GREY img =
           (if (\<forall>x \<in> {0, GetX img - 1}. \<forall>y \<in> {0, GetY img - 1}. \<forall>z \<in> {0, GetZ img - 1}.
                  Get img x y z 0 = Get img 0 0 0 0)
            then Get img 0 0 0 0 else MIN_GREY)"
  by (auto simp add: GuessPadding_def Let_def)

theorem GuessPadding_corners_witness:
  "GuessPadding (- 32768)
     \<lparr>GetX = 2, GetY = 2, GetZ = 2, GetT = 1,
      GetPointerToVoxels = [5, 5, 5, 5, 5, 5, 5, 5]\<rparr> = 5 \<and>
   GuessPadding (- 32768)
     \<lparr>GetX = 2, GetY = 2, GetZ = 2, GetT = 1,
      GetPointerToVoxels = [5, 5, 5, 5, 5, 5, 5, 9]\<rparr> = - 32768"
  using GuessPadding_corners [of "\<lparr>GetX = 2, GetY = 2, GetZ = 2, GetT = 1,
      GetPointerToVoxels = [5, 5, 5, 5, 5, 5, 5, 5]\<rparr>" "- 32768"]
    GuessPadding_corners [of "\<lparr>GetX = 2, GetY = 2, GetZ = 2, GetT = 1,
      GetPointerToVoxels = [5, 5, 5, 5, 5, 5, 5, 9]\<rparr>" "- 32768"]
  by (simp add: Get_def VoxelToIndex_def)

section \<open>Properties of the bin computation\<close>

lemma int_of_double_of_int: "int_of_double (real_of_int k) = k"
  by (simp add: int_of_double_def)

lemma int32_id: "- 2147483648 \<le> k \<Longrightarrow> k \<le> 2147483647 \<Longrightarrow> int32 k = k"
  by (simp add: int32_def)

lemma int32_range:
  "imin \<le> imax \<Longrightarrow> imax - imin + 1 \<le> 2147483647 \<Longrightarrow>
   int32 (int32 (imax - imin) + 1) = imax - imin + 1"
  by (simp add: int32_id)

lemma width_loop_unfold:
  "width_loop irange maxbin width =
     (if \<lceil>real_of_int irange / real_of_int width\<rceil> > maxbin
      then width_loop irange maxbin (int32 (width + 1)) else Some width)"
  by (subst width_loop.simps) (simp add: int_of_double_of_int)

lemma ceiling_quotient_le_one:
  assumes "0 < w" and "r \<le> w"
  shows "\<lceil>real_of_int r / real_of_int w\<rceil> \<le> 1"
proof -
  have "real_of_int r / real_of_int w \<le> 1" using assms by simp
  then show ?thesis by (simp add: ceiling_le_iff)
qed

text \<open>
  With a positive \<^verbatim>\<open>maxbin\<close> and a representable range the loop ends, at the least
  width from its start on whose bin count fits; the width stays below the range, so
  its increment does not wrap.
\<close>

lemma width_loop_least:
  assumes "0 < maxbin" and "0 < w0" and "r \<le> 2147483647"
  shows "\<exists>w. width_loop r maxbin w0 = Some w \<and> w0 \<le> w \<and>
             \<lceil>real_of_int r / real_of_int w\<rceil> \<le> maxbin \<and>
             (\<forall>v. w0 \<le> v \<and> v < w \<longrightarrow> maxbin < \<lceil>real_of_int r / real_of_int v\<rceil>)"
  using assms(2)
proof (induction "nat (r - w0)" arbitrary: w0 rule: less_induct)
  case less
  show ?case
  proof (cases "maxbin < \<lceil>real_of_int r / real_of_int w0\<rceil>")
    case False
    then have "width_loop r maxbin w0 = Some w0"
      by (subst width_loop_unfold) simp
    with False show ?thesis by auto
  next
    case True
    have "w0 < r"
    proof (rule ccontr)
      assume "\<not> w0 < r"
      then have "\<lceil>real_of_int r / real_of_int w0\<rceil> \<le> 1"
        using less.prems by (intro ceiling_quotient_le_one) auto
      with True assms(1) show False by linarith
    qed
    then have next_width: "int32 (w0 + 1) = w0 + 1"
      using less.prems assms(3) by (intro int32_id) auto
    from \<open>w0 < r\<close> have "nat (r - (w0 + 1)) < nat (r - w0)" by linarith
    from less.hyps [OF this] less.prems
    obtain w where w: "width_loop r maxbin (w0 + 1) = Some w" "w0 + 1 \<le> w"
        "\<lceil>real_of_int r / real_of_int w\<rceil> \<le> maxbin"
        "\<forall>v. w0 + 1 \<le> v \<and> v < w \<longrightarrow> maxbin < \<lceil>real_of_int r / real_of_int v\<rceil>"
      by force
    have "width_loop r maxbin w0 = Some w"
      using True w(1) by (subst width_loop_unfold) (simp add: next_width)
    moreover have "\<forall>v. w0 \<le> v \<and> v < w \<longrightarrow> maxbin < \<lceil>real_of_int r / real_of_int v\<rceil>"
    proof (intro allI impI)
      fix v assume "w0 \<le> v \<and> v < w"
      then consider "v = w0" | "w0 + 1 \<le> v \<and> v < w" by linarith
      then show "maxbin < \<lceil>real_of_int r / real_of_int v\<rceil>"
        using True w(4) by cases auto
    qed
    ultimately show ?thesis using w(2,3) by auto
  qed
qed

lemma rescale_floor:
  "0 < width \<Longrightarrow>
   rescale width p = (if p > 0 then \<lfloor>real_of_int p / real_of_int width\<rfloor> else p)"
  by (simp add: rescale_def int_of_double_def)

lemma rescale_one: "rescale 1 p = p"
  by (simp add: rescale_def int_of_double_def)

lemma map_rescale_one: "map (rescale 1) ps = ps"
  by (simp add: rescale_one map_idI)

lemma map_rescale_floor:
  "0 < width \<Longrightarrow>
   map (rescale width) ps =
   map (\<lambda>v. if v > 0 then \<lfloor>real_of_int v / real_of_int width\<rfloor> else v) ps"
  by (intro map_cong refl) (simp add: rescale_floor)

text \<open>
  C3. The range \<^verbatim>\<open>max - min + 1\<close> is computed in a 32-bit \<^verbatim>\<open>int\<close>: for
  \<^verbatim>\<open>min = 0\<close> and \<^verbatim>\<open>max = 2147483647\<close> it wraps, and the call with
  \<^verbatim>\<open>maxbin = 0\<close> returns \<open>-2147483648\<close>, not \<open>2147483648\<close>.
\<close>

theorem irtkCalculateNumberOfBins_range_wraps:
  "irtkCalculateNumberOfBins
     \<lparr>GetX = 2, GetY = 2, GetZ = 1, GetT = 1, GetPointerToVoxels = [7, - 3, 0, 10]\<rparr>
     0 0 2147483647
   = Some (- 2147483648,
           \<lparr>GetX = 2, GetY = 2, GetZ = 1, GetT = 1, GetPointerToVoxels = [7, - 3, 0, 10]\<rparr>)"
  by (simp add: irtkCalculateNumberOfBins_def int32_def rescale_one)

text \<open>
  C3, as amended. For integers \<^verbatim>\<open>min \<le> max\<close> whose range \<^verbatim>\<open>max - min + 1\<close> is
  representable in a 32-bit \<^verbatim>\<open>int\<close> (at most 2147483647): with \<^verbatim>\<open>maxbin = 0\<close> the
  call returns \<^verbatim>\<open>max - min + 1\<close> and leaves the voxels as they are (the divisor is 1);
  with \<^verbatim>\<open>maxbin > 0\<close> it returns the bin count \<open>\<lceil>(max - min + 1) / width\<rceil> \<le> maxbin\<close>,
  where \<open>width\<close> is the least positive integer whose bin count is at most
  \<^verbatim>\<open>maxbin\<close>, and every voxel \<open>v > 0\<close> becomes \<open>\<lfloor>v / width\<rfloor>\<close> while voxels \<open>v \<le> 0\<close>
  stay. The overload for an array of images does the same to each of its first
  \<^verbatim>\<open>n\<close> images.
\<close>

theorem irtkCalculateNumberOfBins_bins:
  assumes "imin \<le> imax" and "imax - imin + 1 \<le> 2147483647"
  shows "irtkCalculateNumberOfBins img 0 imin imax = Some (imax - imin + 1, img) \<and>
         irtkCalculateNumberOfBinsN images 0 imin imax n = Some (imax - imin + 1, images) \<and>
         (0 < maxbin \<longrightarrow>
            (\<exists>width. 0 < width \<and>
               (\<forall>w. 0 < w \<and> w < width \<longrightarrow>
                    maxbin < \<lceil>real_of_int (imax - imin + 1) / real_of_int w\<rceil>) \<and>
               \<lceil>real_of_int (imax - imin + 1) / real_of_int width\<rceil> \<le> maxbin \<and>
               irtkCalculateNumberOfBins img maxbin imin imax =
                 Some (\<lceil>real_of_int (imax - imin + 1) / real_of_int width\<rceil>,
                       img\<lparr>GetPointerToVoxels :=
                             map (\<lambda>v. if v > 0 then \<lfloor>real_of_int v / real_of_int width\<rfloor> else v)
                                 (GetPointerToVoxels img)\<rparr>) \<and>
               irtkCalculateNumberOfBinsN images maxbin imin imax n =
                 Some (\<lceil>real_of_int (imax - imin + 1) / real_of_int width\<rceil>,
                       map (\<lambda>img. img\<lparr>GetPointerToVoxels :=
                             map (\<lambda>v. if v > 0 then \<lfloor>real_of_int v / real_of_int width\<rfloor> else v)
                                 (GetPointerToVoxels img)\<rparr>) (take (nat n) images)
                       @ drop (nat n) images)))"
proof (intro conjI impI)
  note r = int32_range [OF assms]
  show "irtkCalculateNumberOfBins img 0 imin imax = Some (imax - imin + 1, img)"
    by (simp add: irtkCalculateNumberOfBins_def r map_rescale_one)
next
  note r = int32_range [OF assms]
  have "map (\<lambda>img. img\<lparr>GetPointerToVoxels := GetPointerToVoxels img\<rparr>) (take (nat n) images)
          = take (nat n) images"
    by (simp add: map_idI)
  then show "irtkCalculateNumberOfBinsN images 0 imin imax n = Some (imax - imin + 1, images)"
    by (simp add: irtkCalculateNumberOfBinsN_def r map_rescale_one)
next
  assume mb: "0 < maxbin"
  note r = int32_range [OF assms]
  let ?r = "imax - imin + 1"
  have one_pos: "(0::int) < 1" by simp
  from width_loop_least [OF mb one_pos assms(2)]
  obtain w where w: "width_loop ?r maxbin 1 = Some w" "1 \<le> w"
      "\<lceil>real_of_int ?r / real_of_int w\<rceil> \<le> maxbin"
      "\<forall>v. 1 \<le> v \<and> v < w \<longrightarrow> maxbin < \<lceil>real_of_int ?r / real_of_int v\<rceil>"
    by auto
  have pos: "0 < w" using w(2) by simp
  have one: "irtkCalculateNumberOfBins img maxbin imin imax =
                 Some (\<lceil>real_of_int ?r / real_of_int w\<rceil>,
                       img\<lparr>GetPointerToVoxels :=
                             map (\<lambda>v. if v > 0 then \<lfloor>real_of_int v / real_of_int w\<rfloor> else v)
                                 (GetPointerToVoxels img)\<rparr>)"
    using mb w(1) map_rescale_floor [OF pos]
    by (simp add: irtkCalculateNumberOfBins_def r int_of_double_of_int)
  have many: "irtkCalculateNumberOfBinsN images maxbin imin imax n =
                 Some (\<lceil>real_of_int ?r / real_of_int w\<rceil>,
                       map (\<lambda>img. img\<lparr>GetPointerToVoxels :=
                             map (\<lambda>v. if v > 0 then \<lfloor>real_of_int v / real_of_int w\<rfloor> else v)
                                 (GetPointerToVoxels img)\<rparr>) (take (nat n) images)
                       @ drop (nat n) images)"
    using mb w(1) map_rescale_floor [OF pos]
    by (simp add: irtkCalculateNumberOfBinsN_def r int_of_double_of_int)
  have least: "\<forall>v. 0 < v \<and> v < w \<longrightarrow> maxbin < \<lceil>real_of_int ?r / real_of_int v\<rceil>"
    using w(4) by auto
  show "\<exists>width. 0 < width \<and>
               (\<forall>w. 0 < w \<and> w < width \<longrightarrow> maxbin < \<lceil>real_of_int ?r / real_of_int w\<rceil>) \<and>
               \<lceil>real_of_int ?r / real_of_int width\<rceil> \<le> maxbin \<and>
               irtkCalculateNumberOfBins img maxbin imin imax =
                 Some (\<lceil>real_of_int ?r / real_of_int width\<rceil>,
                       img\<lparr>GetPointerToVoxels :=
                             map (\<lambda>v. if v > 0 then \<lfloor>real_of_int v / real_of_int width\<rfloor> else v)
                                 (GetPointerToVoxels img)\<rparr>) \<and>
               irtkCalculateNumberOfBinsN images maxbin imin imax n =
                 Some (\<lceil>real_of_int ?r / real_of_int width\<rceil>,
                       map (\<lambda>img. img\<lparr>GetPointerToVoxels :=
                             map (\<lambda>v. if v > 0 then \<lfloor>real_of_int v / real_of_int width\<rfloor> else v)
                                 (GetPointerToVoxels img)\<rparr>) (take (nat n) images)
                       @ drop (nat n) images)"
    using pos least w(3) one many by (intro exI [of _ w]) (intro conjI)
qed

theorem irtkCalculateNumberOfBins_bins_witness:
  "irtkCalculateNumberOfBins
     \<lparr>GetX = 2, GetY = 2, GetZ = 1, GetT = 1, GetPointerToVoxels = [7, - 3, 0, 10]\<rparr> 3 0 9
   = Some (3, \<lparr>GetX = 2, GetY = 2, GetZ = 1, GetT = 1, GetPointerToVoxels = [1, - 3, 0, 2]\<rparr>)"
proof -
  let ?img = "\<lparr>GetX = 2, GetY = 2, GetZ = 1, GetT = 1, GetPointerToVoxels = [7, - 3, 0, 10]\<rparr>"
  have le: "(0::int) \<le> 9" by simp
  have fits: "(9::int) - 0 + 1 \<le> 2147483647" by simp
  from irtkCalculateNumberOfBins_bins [OF le fits, of ?img "[]" 0 3]
  obtain w where w: "0 < w"
      "\<forall>v. 0 < v \<and> v < w \<longrightarrow> 3 < \<lceil>real_of_int 10 / real_of_int v\<rceil>"
      "\<lceil>real_of_int 10 / real_of_int w\<rceil> \<le> 3"
      "irtkCalculateNumberOfBins ?img 3 0 9 =
         Some (\<lceil>real_of_int 10 / real_of_int w\<rceil>,
               ?img\<lparr>GetPointerToVoxels :=
                      map (\<lambda>v. if v > 0 then \<lfloor>real_of_int v / real_of_int w\<rfloor> else v)
                          (GetPointerToVoxels ?img)\<rparr>)"
    by auto
  have "w \<le> 4"
  proof (rule ccontr)
    assume "\<not> w \<le> 4"
    then have "0 < (4::int) \<and> 4 < w" by simp
    from w(2) [rule_format, OF this] show False by simp
  qed
  moreover have "w \<noteq> 1" "w \<noteq> 2" "w \<noteq> 3" using w(3) by auto
  ultimately have "w = 4" using w(1) by linarith
  with w(4) show ?thesis by simp
qed

section \<open>Properties of the counting loops\<close>

lemma for_loop_skip: "n \<le> i \<Longrightarrow> for_loop i n body s = s"
  by (subst for_loop.simps) simp

lemma for_loop_step: "i < n \<Longrightarrow> for_loop i n body s = for_loop (i + 1) n body (body i s)"
  by (subst for_loop.simps) simp

lemma for_loop_invariant:
  assumes "I i s"
    and "\<And>k s. i \<le> k \<Longrightarrow> k < n \<Longrightarrow> I k s \<Longrightarrow> I (k + 1) (body k s)"
  shows "I (max i n) (for_loop i n body s)"
  using assms
proof (induction i n body s rule: for_loop.induct)
  case (1 i n body s)
  show ?case
  proof (cases "i < n")
    case True
    have "I (max (i + 1) n) (for_loop (i + 1) n body (body i s))"
    proof (rule "1.IH" [OF True])
      show "I (i + 1) (body i s)" using "1.prems" True by simp
    next
      fix k s assume "i + 1 \<le> k" "k < n" "I k s"
      then show "I (k + 1) (body k s)" using "1.prems"(2) by simp
    qed
    with True show ?thesis by (simp add: for_loop_step max_def)
  next
    case False
    then show ?thesis using "1.prems"(1) by (simp add: for_loop_skip max_def)
  qed
qed

lemma for_loop_disj:
  assumes "\<And>i ok. body i ok = (ok \<or> R i)"
  shows "for_loop a n body b = (b \<or> (\<exists>i. a \<le> i \<and> i < n \<and> R i))"
proof -
  have "for_loop a n body b = (b \<or> (\<exists>i. a \<le> i \<and> i < max a n \<and> R i))"
  proof (rule for_loop_invariant [where I = "\<lambda>k s. s = (b \<or> (\<exists>i. a \<le> i \<and> i < k \<and> R i))"])
    show "b = (b \<or> (\<exists>i. a \<le> i \<and> i < a \<and> R i))" by auto
  next
    fix k s assume k: "a \<le> k" "k < n" and s: "s = (b \<or> (\<exists>i. a \<le> i \<and> i < k \<and> R i))"
    have "(\<exists>i. a \<le> i \<and> i < k + 1 \<and> R i) \<longleftrightarrow> (\<exists>i. a \<le> i \<and> i < k \<and> R i) \<or> R k"
    proof
      assume "\<exists>i. a \<le> i \<and> i < k + 1 \<and> R i"
      then obtain i where i: "a \<le> i" "i < k + 1" "R i" by auto
      then have "i < k \<or> i = k" by linarith
      with i show "(\<exists>i. a \<le> i \<and> i < k \<and> R i) \<or> R k" by auto
    next
      assume "(\<exists>i. a \<le> i \<and> i < k \<and> R i) \<or> R k"
      then show "\<exists>i. a \<le> i \<and> i < k + 1 \<and> R i"
        using k(1) by (auto intro: exI [of _ k])
    qed
    then show "body k s = (b \<or> (\<exists>i. a \<le> i \<and> i < k + 1 \<and> R i))"
      using s assms by auto
  qed
  moreover have "(\<exists>i. a \<le> i \<and> i < max a n \<and> R i) \<longleftrightarrow> (\<exists>i. a \<le> i \<and> i < n \<and> R i)"
    by (auto simp add: max_def)
  ultimately show ?thesis by simp
qed

lemma box_ok_iff:
  "box_ok img padding (x1, y1, z1, x2, y2, z2) \<longleftrightarrow>
     (\<exists>t z y x. 0 \<le> t \<and> t < GetT img \<and> z1 \<le> z \<and> z \<le> z2 \<and> y1 \<le> y \<and> y \<le> y2 \<and>
        x1 \<le> x \<and> x \<le> x2 \<and> padding < Get img x y z t)"
proof -
  have x: "for_loop x1 (x2 + 1) (\<lambda>x ok. if Get img x y z t > padding then True else ok) b
           = (b \<or> (\<exists>x. x1 \<le> x \<and> x < x2 + 1 \<and> padding < Get img x y z t))" for y z t b
    by (rule for_loop_disj) auto
  have y: "for_loop y1 (y2 + 1) (\<lambda>y. for_loop x1 (x2 + 1)
              (\<lambda>x ok. if Get img x y z t > padding then True else ok)) b
           = (b \<or> (\<exists>y. y1 \<le> y \<and> y < y2 + 1 \<and>
                 (\<exists>x. x1 \<le> x \<and> x < x2 + 1 \<and> padding < Get img x y z t)))" for z t b
    by (rule for_loop_disj) (simp add: x)
  have z: "for_loop z1 (z2 + 1) (\<lambda>z. for_loop y1 (y2 + 1) (\<lambda>y. for_loop x1 (x2 + 1)
              (\<lambda>x ok. if Get img x y z t > padding then True else ok))) b
           = (b \<or> (\<exists>z. z1 \<le> z \<and> z < z2 + 1 \<and> (\<exists>y. y1 \<le> y \<and> y < y2 + 1 \<and>
                 (\<exists>x. x1 \<le> x \<and> x < x2 + 1 \<and> padding < Get img x y z t))))" for t b
    by (rule for_loop_disj) (simp add: y)
  have t: "for_loop 0 (GetT img) (\<lambda>t. for_loop z1 (z2 + 1) (\<lambda>z. for_loop y1 (y2 + 1)
              (\<lambda>y. for_loop x1 (x2 + 1)
              (\<lambda>x ok. if Get img x y z t > padding then True else ok)))) b
           = (b \<or> (\<exists>t. 0 \<le> t \<and> t < GetT img \<and> (\<exists>z. z1 \<le> z \<and> z < z2 + 1 \<and>
                 (\<exists>y. y1 \<le> y \<and> y < y2 + 1 \<and>
                 (\<exists>x. x1 \<le> x \<and> x < x2 + 1 \<and> padding < Get img x y z t)))))" for b
    by (rule for_loop_disj) (simp add: z)
  show ?thesis
    unfolding box_ok_def prod.case t by auto
qed

section \<open>Passive control points after padding\<close>

lemma visited_empty: "visited img padding ffd {} = ffd"
  by (simp add: visited_def)

lemma visited_step:
  "(let index = LatticeToIndex (visited img padding ffd D) i j k;
        box = BoundingBox (visited img padding ffd D) img index;
        ok = box_ok img padding box
    in if ok = False then PutStatus (visited img padding ffd D) i j k Passive
       else visited img padding ffd D)
   = visited img padding ffd (insert (i, j, k) D)"
  by (auto simp add: visited_def PutStatus_def Let_def fun_eq_iff)

lemma visited_k_loop:
  "for_loop 0 (LatticeZ (visited img padding ffd D)) (\<lambda>k ffd.
         let index = LatticeToIndex ffd i j k;
             box = BoundingBox ffd img index;
             ok = box_ok img padding box
         in if ok = False then PutStatus ffd i j k Passive else ffd) (visited img padding ffd D)
   = visited img padding ffd (D \<union> {(i, j, k) | k. 0 \<le> k \<and> k < LatticeZ ffd})"
proof -
  let ?n = "LatticeZ (visited img padding ffd D)"
  have n: "?n = LatticeZ ffd" by (simp add: visited_def)
  let ?body = "\<lambda>k ffd.
         let index = LatticeToIndex ffd i j k;
             box = BoundingBox ffd img index;
             ok = box_ok img padding box
         in if ok = False then PutStatus ffd i j k Passive else ffd"
  have "for_loop 0 ?n ?body (visited img padding ffd D)
        = visited img padding ffd (D \<union> {(i, j, k) | k. 0 \<le> k \<and> k < max 0 ?n})"
  proof (rule for_loop_invariant [where I = "\<lambda>m s. s = visited img padding ffd
            (D \<union> {(i, j, k) | k. 0 \<le> k \<and> k < m})"])
    have "{(i, j, k) |k. 0 \<le> k \<and> k < (0::int)} = {}" by auto
    then show "visited img padding ffd D =
          visited img padding ffd (D \<union> {(i, j, k) |k. 0 \<le> k \<and> k < 0})"
      by (simp only: Un_empty_right)
  next
    fix m s assume m: "0 \<le> m" "m < ?n"
      and s: "s = visited img padding ffd (D \<union> {(i, j, k) |k. 0 \<le> k \<and> k < m})"
    have "insert (i, j, m) (D \<union> {(i, j, k) |k. 0 \<le> k \<and> k < m})
          = D \<union> {(i, j, k) |k. 0 \<le> k \<and> k < m + 1}"
      using m(1) by auto
    then show "?body m s = visited img padding ffd (D \<union> {(i, j, k) |k. 0 \<le> k \<and> k < m + 1})"
      unfolding s visited_step by simp
  qed
  moreover have "{(i, j, k) | k. 0 \<le> k \<and> k < max 0 ?n} = {(i, j, k) | k. 0 \<le> k \<and> k < LatticeZ ffd}"
    unfolding n by auto
  ultimately show ?thesis by simp
qed

lemma visited_j_loop:
  "for_loop 0 (LatticeY (visited img padding ffd D)) (\<lambda>j ffd.
       for_loop 0 (LatticeZ ffd) (\<lambda>k ffd.
         let index = LatticeToIndex ffd i j k;
             box = BoundingBox ffd img index;
             ok = box_ok img padding box
         in if ok = False then PutStatus ffd i j k Passive else ffd) ffd) (visited img padding ffd D)
   = visited img padding ffd
       (D \<union> {(i, j, k) | j k. 0 \<le> j \<and> j < LatticeY ffd \<and> 0 \<le> k \<and> k < LatticeZ ffd})"
proof -
  let ?n = "LatticeY (visited img padding ffd D)"
  have n: "?n = LatticeY ffd" by (simp add: visited_def)
  let ?body = "\<lambda>j ffd.
       for_loop 0 (LatticeZ ffd) (\<lambda>k ffd.
         let index = LatticeToIndex ffd i j k;
             box = BoundingBox ffd img index;
             ok = box_ok img padding box
         in if ok = False then PutStatus ffd i j k Passive else ffd) ffd"
  let ?S = "\<lambda>m::int. {(i, j, k) | j k::int. 0 \<le> j \<and> j < m \<and> 0 \<le> k \<and> k < LatticeZ ffd}"
  have "for_loop 0 ?n ?body (visited img padding ffd D)
        = visited img padding ffd (D \<union> ?S (max 0 ?n))"
  proof (rule for_loop_invariant [where I = "\<lambda>m s. s = visited img padding ffd (D \<union> ?S m)"])
    have "?S 0 = {}" by auto
    then show "visited img padding ffd D = visited img padding ffd (D \<union> ?S 0)"
      by (simp only: Un_empty_right)
  next
    fix m s assume m: "0 \<le> m" "m < ?n"
      and s: "s = visited img padding ffd (D \<union> ?S m)"
    have "D \<union> ?S m \<union> {(i, m, k) | k. 0 \<le> k \<and> k < LatticeZ ffd} = D \<union> ?S (m + 1)"
    proof -
      have "?S (m + 1) = ?S m \<union> {(i, m, k) | k. 0 \<le> k \<and> k < LatticeZ ffd}"
      proof (intro set_eqI iffI)
        fix p assume "p \<in> ?S (m + 1)"
        then obtain j k where p: "p = (i, j, k)" "0 \<le> j" "j < m + 1" "0 \<le> k" "k < LatticeZ ffd"
          by auto
        then have "j < m \<or> j = m" by linarith
        with p show "p \<in> ?S m \<union> {(i, m, k) | k. 0 \<le> k \<and> k < LatticeZ ffd}" by auto
      next
        fix p assume "p \<in> ?S m \<union> {(i, m, k) | k. 0 \<le> k \<and> k < LatticeZ ffd}"
        then show "p \<in> ?S (m + 1)" using m(1) by auto
      qed
      then show ?thesis by auto
    qed
    then show "?body m s = visited img padding ffd (D \<union> ?S (m + 1))"
      unfolding s visited_k_loop by simp
  qed
  moreover have "?S (max 0 ?n) = ?S (LatticeY ffd)"
    unfolding n by auto
  ultimately show ?thesis by simp
qed

lemma visited_i_loop:
  "irtkPadding_ffd img padding ffd
   = visited img padding ffd
       {(i, j, k) | i j k. 0 \<le> i \<and> i < LatticeX ffd \<and> 0 \<le> j \<and> j < LatticeY ffd \<and>
                          0 \<le> k \<and> k < LatticeZ ffd}"
proof -
  let ?n = "LatticeX ffd"
  let ?body = "\<lambda>i ffd. for_loop 0 (LatticeY ffd) (\<lambda>j ffd.
       for_loop 0 (LatticeZ ffd) (\<lambda>k ffd.
         let index = LatticeToIndex ffd i j k;
             box = BoundingBox ffd img index;
             ok = box_ok img padding box
         in if ok = False then PutStatus ffd i j k Passive else ffd) ffd) ffd"
  let ?S = "\<lambda>m::int. {(i, j, k) | i j k::int. 0 \<le> i \<and> i < m \<and> 0 \<le> j \<and> j < LatticeY ffd \<and>
                          0 \<le> k \<and> k < LatticeZ ffd}"
  have "for_loop 0 ?n ?body ffd = visited img padding ffd (?S (max 0 ?n))"
  proof (rule for_loop_invariant [where I = "\<lambda>m s. s = visited img padding ffd (?S m)"])
    have "?S 0 = {}" by auto
    then show "ffd = visited img padding ffd (?S 0)"
      by (simp only: visited_empty)
  next
    fix m s assume m: "0 \<le> m" "m < ?n"
      and s: "s = visited img padding ffd (?S m)"
    have "?S m \<union> {(m, j, k) | j k. 0 \<le> j \<and> j < LatticeY ffd \<and> 0 \<le> k \<and> k < LatticeZ ffd}
          = ?S (m + 1)"
    proof (intro set_eqI iffI)
      fix p assume "p \<in> ?S (m + 1)"
      then obtain i j k where p: "p = (i, j, k)" "0 \<le> i" "i < m + 1" "0 \<le> j" "j < LatticeY ffd"
          "0 \<le> k" "k < LatticeZ ffd"
        by auto
      then have "i < m \<or> i = m" by linarith
      with p show "p \<in> ?S m \<union> {(m, j, k) | j k. 0 \<le> j \<and> j < LatticeY ffd \<and> 0 \<le> k \<and> k < LatticeZ ffd}"
        by auto
    next
      fix p assume "p \<in> ?S m \<union> {(m, j, k) | j k. 0 \<le> j \<and> j < LatticeY ffd \<and> 0 \<le> k \<and> k < LatticeZ ffd}"
      then show "p \<in> ?S (m + 1)" using m(1) by auto
    qed
    then show "?body m s = visited img padding ffd (?S (m + 1))"
      unfolding s visited_j_loop by simp
  qed
  moreover have "?S (max 0 ?n) = ?S (LatticeX ffd)"
    by auto
  ultimately show ?thesis by (simp add: irtkPadding_ffd_def)
qed

text \<open>
  C9. After \<^verbatim>\<open>irtkPadding(image, padding, ffd)\<close> a control point of the lattice is
  passive if every voxel of its bounding box, over all time frames, has an intensity of
  at most \<^verbatim>\<open>padding\<close>, and keeps its status otherwise; the status active is never
  assigned, so a passive control point stays passive.
\<close>

theorem irtkPadding_ffd_status:
  "GetStatus (irtkPadding_ffd img padding ffd) i j k =
     (if 0 \<le> i \<and> i < LatticeX ffd \<and> 0 \<le> j \<and> j < LatticeY ffd \<and> 0 \<le> k \<and> k < LatticeZ ffd \<and>
         (case BoundingBox ffd img (LatticeToIndex ffd i j k) of (x1, y1, z1, x2, y2, z2) \<Rightarrow>
            \<forall>t z y x. 0 \<le> t \<and> t < GetT img \<and> z1 \<le> z \<and> z \<le> z2 \<and> y1 \<le> y \<and> y \<le> y2 \<and>
                      x1 \<le> x \<and> x \<le> x2 \<longrightarrow> Get img x y z t \<le> padding)
      then Passive else GetStatus ffd i j k) \<and>
   (GetStatus ffd i j k = Passive \<longrightarrow> GetStatus (irtkPadding_ffd img padding ffd) i j k = Passive)"
proof -
  obtain x1 y1 z1 x2 y2 z2 where
    box: "BoundingBox ffd img (LatticeToIndex ffd i j k) = (x1, y1, z1, x2, y2, z2)"
    by (metis prod_cases6)
  have "GetStatus (irtkPadding_ffd img padding ffd) i j k =
          (if (0 \<le> i \<and> i < LatticeX ffd \<and> 0 \<le> j \<and> j < LatticeY ffd \<and> 0 \<le> k \<and> k < LatticeZ ffd) \<and>
              \<not> box_ok img padding (x1, y1, z1, x2, y2, z2)
           then Passive else GetStatus ffd i j k)"
    by (simp add: visited_i_loop visited_def box)
  moreover have "\<not> box_ok img padding (x1, y1, z1, x2, y2, z2) \<longleftrightarrow>
      (\<forall>t z y x. 0 \<le> t \<and> t < GetT img \<and> z1 \<le> z \<and> z \<le> z2 \<and> y1 \<le> y \<and> y \<le> y2 \<and>
                      x1 \<le> x \<and> x \<le> x2 \<longrightarrow> Get img x y z t \<le> padding)"
    unfolding box_ok_iff by (auto simp add: not_less)
  ultimately show ?thesis
    unfolding box prod.case by simp
qed

theorem irtkPadding_ffd_status_witness:
  "GetStatus (irtkPadding_ffd
      \<lparr>GetX = 2, GetY = 1, GetZ = 1, GetT = 1, GetPointerToVoxels = [0, 0]\<rparr> 0
      \<lparr>LatticeX = 1, LatticeY = 1, LatticeZ = 1, LatticeToIndex = (\<lambda>i j k. 0),
       BoundingBox = (\<lambda>img index. (0, 0, 0, 1, 0, 0)), GetStatus = (\<lambda>i j k. Active)\<rparr>) 0 0 0
   = Passive"
proof -
  let ?img = "\<lparr>GetX = 2, GetY = 1, GetZ = 1, GetT = 1, GetPointerToVoxels = [0, 0]\<rparr>"
  let ?ffd = "\<lparr>LatticeX = 1, LatticeY = 1, LatticeZ = 1, LatticeToIndex = (\<lambda>i j k. 0),
       BoundingBox = (\<lambda>img index. (0, 0, 0, 1, 0, 0)), GetStatus = (\<lambda>i j k. Active)\<rparr>"
  have "Get ?img x y z t \<le> 0"
    if "0 \<le> t \<and> t < GetT ?img \<and> 0 \<le> z \<and> z \<le> 0 \<and> 0 \<le> y \<and> y \<le> 0 \<and> 0 \<le> x \<and> x \<le> 1"
    for t z y x
  proof -
    from that have "t = 0" "z = 0" "y = 0" "x = 0 \<or> x = 1" by auto
    then show ?thesis by (auto simp add: Get_def VoxelToIndex_def)
  qed
  then show ?thesis
    using irtkPadding_ffd_status [of ?img 0 ?ffd 0 0 0] by simp
qed

section \<open>The force where the intensities agree\<close>

text \<open>
  C7. In additive mode the force at a voxel whose target intensity equals the source
  intensity sampled at the displaced position is the zero vector, whatever the gradient.
\<close>

theorem Force_zero_when_intensities_agree:
  assumes "target v = source (displaced v (d v))"
  shows "Force AdditiveDemons factor epsilon padded target source targetGradient sourceGradient d v
           = (0, 0, 0)"
  using assms by (simp add: Force_def Let_def split: prod.splits)

theorem Force_zero_when_intensities_agree_witness:
  "Force AdditiveDemons 1 (1 / 1000) (\<lambda>v. False) (\<lambda>v. 3) (\<lambda>p. 3) (\<lambda>v. (1, 2, 3))
     (\<lambda>p. (0, 0, 0)) (\<lambda>v. (1 / 2, 0, 0)) (0, 0, 0) = (0, 0, 0)"
  using Force_zero_when_intensities_agree [of "\<lambda>v. 3" "(0, 0, 0)" "\<lambda>p. 3" "\<lambda>v. (1 / 2, 0, 0)"
      1 "1 / 1000" "\<lambda>v. False" "\<lambda>v. (1, 2, 3)" "\<lambda>p. (0, 0, 0)"]
  by simp

section \<open>Voxel reads and writes\<close>

lemma mixed_radix_bound:
  fixes a b A B :: int
  assumes "0 \<le> a" "a < A" "0 \<le> b" "b < B"
  shows "0 \<le> b * A + a \<and> b * A + a < B * A"
proof -
  have "b * A + a < b * A + A" using assms by simp
  also have "\<dots> = (b + 1) * A" by (simp add: algebra_simps)
  also have "\<dots> \<le> B * A" using assms by (intro mult_right_mono) auto
  finally have "b * A + a < B * A" .
  moreover have "0 \<le> b * A" using assms by (intro mult_nonneg_nonneg) auto
  ultimately show ?thesis using assms by simp
qed

lemma mixed_radix_inj:
  fixes a b a' b' A :: int
  assumes "0 \<le> a" "a < A" "0 \<le> a'" "a' < A" "b * A + a = b' * A + a'"
  shows "a = a' \<and> b = b'"
proof -
  have "a = (b * A + a) mod A" using assms(1,2) by simp
  also have "\<dots> = (b' * A + a') mod A" by (simp only: assms(5))
  also have "\<dots> = a'" using assms(3,4) by simp
  finally have a: "a = a'" .
  with assms(5) have "b * A = b' * A" by simp
  moreover have "A \<noteq> 0" using assms by auto
  ultimately have "b = b'" by simp
  with a show ?thesis by simp
qed

lemma voxel_offset_bound:
  assumes "in_image img x y z t"
  shows "0 \<le> voxel_offset img x y z t \<and> voxel_offset img x y z t < GetNumberOfVoxels img"
proof -
  from assms have r: "0 \<le> x" "x < GetX img" "0 \<le> y" "y < GetY img" "0 \<le> z" "z < GetZ img"
      "0 \<le> t" "t < GetT img"
    by (simp_all add: in_image_def)
  from mixed_radix_bound [OF r(5,6,7,8)]
  have 1: "0 \<le> t * GetZ img + z" "t * GetZ img + z < GetT img * GetZ img" by simp_all
  from mixed_radix_bound [OF r(3,4) 1]
  have 2: "0 \<le> (t * GetZ img + z) * GetY img + y"
    "(t * GetZ img + z) * GetY img + y < GetT img * GetZ img * GetY img" by simp_all
  from mixed_radix_bound [OF r(1,2) 2]
  show ?thesis by (simp add: voxel_offset_def GetNumberOfVoxels_def mult.commute mult.left_commute)
qed

lemma voxel_offset_inj:
  assumes "in_image img x y z t" and "in_image img x' y' z' t'"
    and "voxel_offset img x y z t = voxel_offset img x' y' z' t'"
  shows "x = x' \<and> y = y' \<and> z = z' \<and> t = t'"
proof -
  from assms(1) have r: "0 \<le> x" "x < GetX img" "0 \<le> y" "y < GetY img" "0 \<le> z" "z < GetZ img"
    by (simp_all add: in_image_def)
  from assms(2) have r': "0 \<le> x'" "x' < GetX img" "0 \<le> y'" "y' < GetY img" "0 \<le> z'" "z' < GetZ img"
    by (simp_all add: in_image_def)
  from mixed_radix_inj [OF r(1,2) r'(1,2) assms(3) [unfolded voxel_offset_def]]
  have 1: "x = x'" "(t * GetZ img + z) * GetY img + y = (t' * GetZ img + z') * GetY img + y'"
    by simp_all
  from mixed_radix_inj [OF r(3,4) r'(3,4) 1(2)]
  have 2: "y = y'" "t * GetZ img + z = t' * GetZ img + z'" by simp_all
  from mixed_radix_inj [OF r(5,6) r'(5,6) 2(2)]
  have 3: "z = z'" "t = t'" by simp_all
  from 1(1) 2(1) 3 show ?thesis by simp
qed

lemma VoxelToIndex_offset: "VoxelToIndex img x y z t = nat (voxel_offset img x y z t)"
  by (simp add: VoxelToIndex_def voxel_offset_def)

lemma VoxelToIndex_less:
  assumes "image_ok img" and "in_image img x y z t"
  shows "VoxelToIndex img x y z t < length (GetPointerToVoxels img)"
  using voxel_offset_bound [OF assms(2)] assms(1)
  by (simp add: VoxelToIndex_offset image_ok_def nat_less_iff)

lemma VoxelToIndex_inj:
  assumes "in_image img x y z t" and "in_image img x' y' z' t'"
    and "VoxelToIndex img x y z t = VoxelToIndex img x' y' z' t'"
  shows "x = x' \<and> y = y' \<and> z = z' \<and> t = t'"
proof -
  have "int (nat (voxel_offset img x y z t)) = int (nat (voxel_offset img x' y' z' t'))"
    using assms(3) by (simp only: VoxelToIndex_offset)
  then have "voxel_offset img x y z t = voxel_offset img x' y' z' t'"
    using voxel_offset_bound [OF assms(1)] voxel_offset_bound [OF assms(2)] by simp
  from voxel_offset_inj [OF assms(1,2) this] show ?thesis .
qed

lemma same_shape_refl: "same_shape a a"
  by (simp add: same_shape_def)

lemma same_shape_Put: "same_shape (Put a x y z t v) b = same_shape a b"
  by (simp add: same_shape_def Put_def)

lemma same_shape_image_ok: "same_shape a b \<Longrightarrow> image_ok a = image_ok b"
  by (simp add: same_shape_def image_ok_def GetNumberOfVoxels_def)

lemma same_shape_in_image: "same_shape a b \<Longrightarrow> in_image a x y z t = in_image b x y z t"
  by (simp add: same_shape_def in_image_def)

lemma same_shape_GetX: "same_shape a b \<Longrightarrow> GetX a = GetX b"
  by (simp add: same_shape_def)

lemma Get_Put:
  assumes "image_ok img" and "in_image img x y z t" and "in_image img x' y' z' t'"
  shows "Get (Put img x y z t v) x' y' z' t' =
           (if x' = x \<and> y' = y \<and> z' = z \<and> t' = t then v else Get img x' y' z' t')"
proof -
  have idx: "VoxelToIndex (Put img x y z t v) a b c d = VoxelToIndex img a b c d" for a b c d
    by (simp add: VoxelToIndex_def Put_def)
  have g: "Get (Put img x y z t v) x' y' z' t' =
             (GetPointerToVoxels img)[VoxelToIndex img x y z t := v] ! VoxelToIndex img x' y' z' t'"
    unfolding Get_def idx by (simp add: Put_def)
  show ?thesis
  proof (cases "x' = x \<and> y' = y \<and> z' = z \<and> t' = t")
    case True
    then show ?thesis
      unfolding g using VoxelToIndex_less [OF assms(1,2)] by simp
  next
    case False
    then have neq: "VoxelToIndex img x y z t \<noteq> VoxelToIndex img x' y' z' t'"
      using VoxelToIndex_inj [OF assms(2,3)] by blast
    show ?thesis
      unfolding g by (simp only: if_not_P [OF False] nth_list_update_neq [OF neq] Get_def)
  qed
qed

section \<open>Runs along a row\<close>

lemma scan_run_stop:
  "\<not> (l < GetX img \<and> Get img l j k t = - 1) \<Longrightarrow> scan_run img j k t l = l"
  by (subst scan_run.simps) auto

lemma scan_run_next:
  "l < GetX img \<Longrightarrow> Get img l j k t = - 1 \<Longrightarrow> scan_run img j k t l = scan_run img j k t (l + 1)"
  by (subst scan_run.simps) simp

lemma scan_run_unique:
  assumes "l \<le> e" and "e \<le> GetX img"
    and "\<forall>q. l \<le> q \<and> q < e \<longrightarrow> Get img q j k t = - 1"
    and "e = GetX img \<or> Get img e j k t \<noteq> - 1"
  shows "scan_run img j k t l = e"
  using assms
proof (induction img j k t l rule: scan_run.induct)
  case (1 img j k t l)
  show ?case
  proof (cases "l < e")
    case True
    with "1.prems" have l: "l < GetX img" "Get img l j k t = - 1" by auto
    have "scan_run img j k t (l + 1) = e"
      using "1.IH" [OF l(1)] l(2) True "1.prems" by auto
    with l show ?thesis by (simp add: scan_run_next)
  next
    case False
    with "1.prems" have e: "l = e" by simp
    with "1.prems"(4) have "\<not> (l < GetX img \<and> Get img l j k t = - 1)" by auto
    then have "scan_run img j k t l = l" by (rule scan_run_stop)
    with e show ?thesis by simp
  qed
qed

lemma scan_run_le: "l \<le> GetX img \<Longrightarrow> scan_run img j k t l \<le> GetX img"
proof (induction img j k t l rule: scan_run.induct)
  case (1 img j k t l)
  show ?case
  proof (cases "l < GetX img \<and> Get img l j k t = - 1")
    case True
    with "1.IH" have "scan_run img j k t (l + 1) \<le> GetX img" by simp
    with True show ?thesis by (simp add: scan_run_next)
  next
    case False
    with "1.prems" show ?thesis by (simp add: scan_run_stop)
  qed
qed

lemma scan_run_all:
  "l \<le> q \<Longrightarrow> q < scan_run img j k t l \<Longrightarrow> Get img q j k t = - 1"
proof (induction img j k t l rule: scan_run.induct)
  case (1 img j k t l)
  show ?case
  proof (cases "l < GetX img \<and> Get img l j k t = - 1")
    case True
    show ?thesis
    proof (cases "q = l")
      case True
      with \<open>l < GetX img \<and> Get img l j k t = - 1\<close> show ?thesis by simp
    next
      case False
      with "1.prems" True have "l + 1 \<le> q" "q < scan_run img j k t (l + 1)"
        by (simp_all add: scan_run_next)
      with "1.IH" True show ?thesis by simp
    qed
  next
    case False
    with "1.prems" show ?thesis by (simp add: scan_run_stop)
  qed
qed

lemma scan_run_end:
  "scan_run img j k t l < GetX img \<Longrightarrow> Get img (scan_run img j k t l) j k t \<noteq> - 1"
proof (induction img j k t l rule: scan_run.induct)
  case (1 img j k t l)
  show ?case
  proof (cases "l < GetX img \<and> Get img l j k t = - 1")
    case True
    with "1.prems" have "scan_run img j k t (l + 1) < GetX img" by (simp add: scan_run_next)
    with "1.IH" True show ?thesis by (simp add: scan_run_next)
  next
    case False
    with "1.prems" show ?thesis by (simp add: scan_run_stop)
  qed
qed

lemma scan_run_same:
  assumes "l \<le> q" and "q < scan_run img j k t l"
  shows "scan_run img j k t q = scan_run img j k t l"
proof (rule scan_run_unique)
  show "q \<le> scan_run img j k t l" using assms by simp
  have "l \<le> GetX img"
  proof (rule ccontr)
    assume "\<not> l \<le> GetX img"
    then have "scan_run img j k t l = l" by (intro scan_run_stop) simp
    with assms show False by simp
  qed
  then show le: "scan_run img j k t l \<le> GetX img" by (rule scan_run_le)
  show "\<forall>q'. q \<le> q' \<and> q' < scan_run img j k t l \<longrightarrow> Get img q' j k t = - 1"
    using assms(1) scan_run_all [of l _ img j k t] by auto
  show "scan_run img j k t l = GetX img \<or> Get img (scan_run img j k t l) j k t \<noteq> - 1"
    using le scan_run_end [of img j k t l] by auto
qed

lemma scan_run_cong:
  assumes "GetX a = GetX b"
    and "\<forall>q. l \<le> q \<and> q < GetX b \<longrightarrow> Get a q j k t = Get b q j k t"
  shows "scan_run a j k t l = scan_run b j k t l"
  using assms
proof (induction b j k t l rule: scan_run.induct)
  case (1 b j k t l)
  show ?case
  proof (cases "l < GetX b \<and> Get b l j k t = - 1")
    case True
    with "1.prems" have a: "l < GetX a" "Get a l j k t = - 1" by auto
    have "scan_run a j k t (l + 1) = scan_run b j k t (l + 1)"
      using "1.IH" True "1.prems" by auto
    with True a show ?thesis by (simp add: scan_run_next)
  next
    case False
    with "1.prems" have "\<not> (l < GetX a \<and> Get a l j k t = - 1)" by auto
    with False show ?thesis by (simp add: scan_run_stop)
  qed
qed

lemma fill_run_Get:
  assumes ok: "image_ok img" and i: "0 \<le> i" and l: "l \<le> GetX img"
    and row: "0 \<le> j" "j < GetY img" "0 \<le> k" "k < GetZ img" "0 \<le> t" "t < GetT img"
  shows "same_shape (fill_run img j k t l i) img \<and>
         (\<forall>x y z t'. in_image img x y z t' \<longrightarrow>
            Get (fill_run img j k t l i) x y z t' =
              (if y = j \<and> z = k \<and> t' = t \<and> i \<le> x \<and> x < l then - (l - x)
               else Get img x y z t'))"
proof -
  let ?I = "\<lambda>p s. same_shape s img \<and>
         (\<forall>x y z t'. in_image img x y z t' \<longrightarrow>
            Get s x y z t' =
              (if y = j \<and> z = k \<and> t' = t \<and> i \<le> x \<and> x < p then - (l - x)
               else Get img x y z t'))"
  have "?I (max i l) (for_loop i l (\<lambda>p img. Put img p j k t (- (l - p))) img)"
  proof (rule for_loop_invariant [where I = ?I])
    show "?I i img" by (auto simp add: same_shape_refl)
  next
    fix p s assume p: "i \<le> p" "p < l" and I: "?I p s"
    from I have sh: "same_shape s img" by simp
    have oks: "image_ok s" using sh ok by (simp add: same_shape_image_ok)
    have inp: "in_image s p j k t"
      using p i l row sh by (simp add: in_image_def same_shape_def)
    show "?I (p + 1) (Put s p j k t (- (l - p)))"
    proof (intro conjI allI impI)
      show "same_shape (Put s p j k t (- (l - p))) img"
        using sh by (simp add: same_shape_Put)
    next
      fix x y z t' assume c: "in_image img x y z t'"
      then have cs: "in_image s x y z t'" using sh by (simp add: same_shape_in_image)
      from I c have old: "Get s x y z t' =
              (if y = j \<and> z = k \<and> t' = t \<and> i \<le> x \<and> x < p then - (l - x)
               else Get img x y z t')" by simp
      show "Get (Put s p j k t (- (l - p))) x y z t' =
              (if y = j \<and> z = k \<and> t' = t \<and> i \<le> x \<and> x < p + 1 then - (l - x)
               else Get img x y z t')"
        unfolding Get_Put [OF oks inp cs] old using p(1) by auto
    qed
  qed
  moreover have "(i \<le> x \<and> x < max i l) = (i \<le> x \<and> x < l)" for x
    by auto
  ultimately show ?thesis by (simp add: fill_run_def)
qed

lemma row_loop_Get:
  assumes "image_ok img" and "0 \<le> i"
    and "0 \<le> j" "j < GetY img" "0 \<le> k" "k < GetZ img" "0 \<le> t" "t < GetT img"
  shows "same_shape (row_loop img j k t i) img \<and>
         (\<forall>x y z t'. in_image img x y z t' \<longrightarrow>
            Get (row_loop img j k t i) x y z t' =
              (if y = j \<and> z = k \<and> t' = t \<and> i \<le> x \<and> Get img x y z t' = - 1
               then - (scan_run img j k t x - x)
               else Get img x y z t'))"
  using assms
proof (induction img j k t i rule: row_loop.induct)
  case (1 img j k t i)
  note ok = "1.prems"(1) and i = "1.prems"(2) and row = "1.prems"(3-8)
  consider (run) "i < GetX img" "Get img i j k t = - 1"
    | (skip) "i < GetX img" "Get img i j k t \<noteq> - 1"
    | (stop) "\<not> i < GetX img" by blast
  then show ?case
  proof cases
    case run
    define l where "l = scan_run img j k t i"
    define img' where "img' = fill_run img j k t l i"
    have il: "i < l" using scan_run_gt [OF run] by (simp add: l_def)
    have lX: "l \<le> GetX img" using scan_run_le [of i img j k t] run(1) by (simp add: l_def)
    from fill_run_Get [OF ok i lX row]
    have sh': "same_shape img' img"
      and g': "\<And>x y z t'. in_image img x y z t' \<Longrightarrow> Get img' x y z t' =
              (if y = j \<and> z = k \<and> t' = t \<and> i \<le> x \<and> x < l then - (l - x)
               else Get img x y z t')"
      by (simp_all add: img'_def)
    have unf: "row_loop img j k t i = row_loop img' j k t l"
      by (subst row_loop.simps) (simp add: run Let_def l_def img'_def)
    have ok': "image_ok img'" using sh' ok by (simp add: same_shape_image_ok)
    have dims': "GetX img' = GetX img" "GetY img' = GetY img" "GetZ img' = GetZ img"
      "GetT img' = GetT img"
      using sh' by (simp_all add: same_shape_def)
    have "same_shape (row_loop img' j k t (l - 1 + 1)) img' \<and>
         (\<forall>x y z t'. in_image img' x y z t' \<longrightarrow>
            Get (row_loop img' j k t (l - 1 + 1)) x y z t' =
              (if y = j \<and> z = k \<and> t' = t \<and> l - 1 + 1 \<le> x \<and> Get img' x y z t' = - 1
               then - (scan_run img' j k t x - x)
               else Get img' x y z t'))"
      unfolding img'_def l_def
    proof (rule "1.IH"(1) [OF run refl refl refl])
      show "image_ok (fill_run img j k t (scan_run img j k t i) i)"
        using ok' by (simp add: img'_def l_def)
      show "0 \<le> scan_run img j k t i - 1 + 1" using il i by (simp add: l_def)
      show "0 \<le> j" "0 \<le> k" "0 \<le> t" using row by simp_all
      show "j < GetY (fill_run img j k t (scan_run img j k t i) i)"
        "k < GetZ (fill_run img j k t (scan_run img j k t i) i)"
        "t < GetT (fill_run img j k t (scan_run img j k t i) i)"
        using row dims' by (simp_all add: img'_def l_def)
    qed
    then have IH_sh: "same_shape (row_loop img' j k t l) img'"
      and IH: "\<And>x y z t'. in_image img x y z t' \<Longrightarrow>
            Get (row_loop img' j k t l) x y z t' =
              (if y = j \<and> z = k \<and> t' = t \<and> l \<le> x \<and> Get img' x y z t' = - 1
               then - (scan_run img' j k t x - x)
               else Get img' x y z t')"
      using same_shape_in_image [OF sh'] by simp_all
    show ?thesis
    proof (intro conjI allI impI)
      show "same_shape (row_loop img j k t i) img"
        using IH_sh sh' by (simp add: unf same_shape_def)
    next
      fix x y z t' assume c: "in_image img x y z t'"
      show "Get (row_loop img j k t i) x y z t' =
              (if y = j \<and> z = k \<and> t' = t \<and> i \<le> x \<and> Get img x y z t' = - 1
               then - (scan_run img j k t x - x)
               else Get img x y z t')"
      proof (cases "y = j \<and> z = k \<and> t' = t")
        case False
        then show ?thesis using IH [OF c] g' [OF c] by (auto simp add: unf)
      next
        case True
        then have c': "in_image img x j k t" using c by simp
        consider (before) "x < i" | (inside) "i \<le> x" "x < l" | (after) "l \<le> x" by linarith
        then show ?thesis
        proof cases
          case before
          then show ?thesis using IH [OF c'] g' [OF c'] il True by (simp add: unf)
        next
          case inside
          have m1: "Get img x j k t = - 1"
            using scan_run_all [of i x img j k t] inside by (simp add: l_def)
          have same: "scan_run img j k t x = l"
            using scan_run_same [of i x img j k t] inside by (simp add: l_def)
          show ?thesis using IH [OF c'] g' [OF c'] inside True m1 same by (simp add: unf)
        next
          case after
          have "scan_run img' j k t x = scan_run img j k t x"
          proof (rule scan_run_cong)
            show "GetX img' = GetX img" by (rule dims')
            show "\<forall>q. x \<le> q \<and> q < GetX img \<longrightarrow> Get img' q j k t = Get img q j k t"
            proof (intro allI impI)
              fix q assume q: "x \<le> q \<and> q < GetX img"
              then have "in_image img q j k t" using c' by (simp add: in_image_def)
              from g' [OF this] q after show "Get img' q j k t = Get img q j k t" by simp
            qed
          qed
          then show ?thesis using IH [OF c'] g' [OF c'] after il True by (simp add: unf)
        qed
      qed
    qed
  next
    case skip
    have unf: "row_loop img j k t i = row_loop img j k t (i + 1)"
      by (subst row_loop.simps) (simp add: skip)
    have "same_shape (row_loop img j k t (i + 1)) img \<and>
         (\<forall>x y z t'. in_image img x y z t' \<longrightarrow>
            Get (row_loop img j k t (i + 1)) x y z t' =
              (if y = j \<and> z = k \<and> t' = t \<and> i + 1 \<le> x \<and> Get img x y z t' = - 1
               then - (scan_run img j k t x - x)
               else Get img x y z t'))"
      using "1.IH"(2) [OF skip ok _ row] i by simp
    then have IH_sh: "same_shape (row_loop img j k t (i + 1)) img"
      and IH: "\<And>x y z t'. in_image img x y z t' \<Longrightarrow>
            Get (row_loop img j k t (i + 1)) x y z t' =
              (if y = j \<and> z = k \<and> t' = t \<and> i + 1 \<le> x \<and> Get img x y z t' = - 1
               then - (scan_run img j k t x - x)
               else Get img x y z t')"
      by simp_all
    show ?thesis
    proof (intro conjI allI impI)
      show "same_shape (row_loop img j k t i) img" using IH_sh by (simp add: unf)
    next
      fix x y z t' assume c: "in_image img x y z t'"
      have "x = i \<or> x < i \<or> i + 1 \<le> x" by linarith
      then show "Get (row_loop img j k t i) x y z t' =
              (if y = j \<and> z = k \<and> t' = t \<and> i \<le> x \<and> Get img x y z t' = - 1
               then - (scan_run img j k t x - x)
               else Get img x y z t')"
        using IH [OF c] skip(2) by (auto simp add: unf)
    qed
  next
    case stop
    have unf: "row_loop img j k t i = img"
      by (subst row_loop.simps) (simp add: stop)
    show ?thesis
      using stop by (auto simp add: unf same_shape_refl in_image_def)
  qed
qed

section \<open>Padding distances in the whole image\<close>

lemma distances_in_start: "distances_in img {} img"
  by (simp add: distances_in_def same_shape_refl)

lemma distances_in_row:
  assumes ok: "image_ok img" and d: "distances_in img D s"
    and row: "0 \<le> j" "j < GetY img" "0 \<le> k" "k < GetZ img" "0 \<le> t" "t < GetT img"
    and new: "(j, k, t) \<notin> D"
  shows "distances_in img (insert (j, k, t) D) (row_loop s j k t 0)"
proof -
  from d have sh: "same_shape s img"
    and g: "\<And>x y z t. in_image img x y z t \<Longrightarrow> Get s x y z t =
          (if (y, z, t) \<in> D \<and> Get img x y z t = - 1 then - (scan_run img y z t x - x)
           else Get img x y z t)"
    by (simp_all add: distances_in_def)
  have oks: "image_ok s" using sh ok by (simp add: same_shape_image_ok)
  have dims: "GetX s = GetX img" "GetY s = GetY img" "GetZ s = GetZ img" "GetT s = GetT img"
    using sh by (simp_all add: same_shape_def)
  have rows: "0 \<le> j" "j < GetY s" "0 \<le> k" "k < GetZ s" "0 \<le> t" "t < GetT s"
    using row dims by simp_all
  have zero: "(0::int) \<le> 0" by simp
  from row_loop_Get [OF oks zero rows]
  have sh': "same_shape (row_loop s j k t 0) s"
    and g': "\<And>x y z t'. in_image img x y z t' \<Longrightarrow>
            Get (row_loop s j k t 0) x y z t' =
              (if y = j \<and> z = k \<and> t' = t \<and> 0 \<le> x \<and> Get s x y z t' = - 1
               then - (scan_run s j k t x - x)
               else Get s x y z t')"
    using same_shape_in_image [OF sh] by simp_all
  have in_row: "Get s x j k t = Get img x j k t" if "in_image img x j k t" for x
    using g [OF that] new by simp
  show ?thesis
    unfolding distances_in_def
  proof (intro conjI allI impI)
    show "same_shape (row_loop s j k t 0) img"
      using sh' sh by (simp add: same_shape_def)
  next
    fix x y z t' assume c: "in_image img x y z t'"
    show "Get (row_loop s j k t 0) x y z t' =
          (if (y, z, t') \<in> insert (j, k, t) D \<and> Get img x y z t' = - 1
           then - (scan_run img y z t' x - x) else Get img x y z t')"
    proof (cases "y = j \<and> z = k \<and> t' = t")
      case False
      then show ?thesis using g' [OF c] g [OF c] by auto
    next
      case True
      then have c': "in_image img x j k t" using c by simp
      then have x0: "0 \<le> x" by (simp add: in_image_def)
      have "scan_run s j k t x = scan_run img j k t x"
      proof (rule scan_run_cong)
        show "GetX s = GetX img" by (rule dims)
        show "\<forall>q. x \<le> q \<and> q < GetX img \<longrightarrow> Get s q j k t = Get img q j k t"
        proof (intro allI impI)
          fix q assume "x \<le> q \<and> q < GetX img"
          then have "in_image img q j k t" using c' by (simp add: in_image_def)
          then show "Get s q j k t = Get img q j k t" by (rule in_row)
        qed
      qed
      then show ?thesis using g' [OF c'] in_row [OF c'] True x0 by simp
    qed
  qed
qed

lemma distances_in_j_loop:
  assumes ok: "image_ok img" and d: "distances_in img D s"
    and row: "0 \<le> k" "k < GetZ img" "0 \<le> t" "t < GetT img"
    and new: "\<forall>j. (j, k, t) \<notin> D"
  shows "distances_in img (D \<union> {(j, k, t) | j. 0 \<le> j \<and> j < GetY img})
           (for_loop 0 (GetY s) (\<lambda>j img. row_loop img j k t 0) s)"
proof -
  have n: "GetY s = GetY img" using d by (simp add: distances_in_def same_shape_def)
  let ?S = "\<lambda>m::int. {(j, k, t) | j::int. 0 \<le> j \<and> j < m}"
  have "distances_in img (D \<union> ?S (max 0 (GetY s)))
           (for_loop 0 (GetY s) (\<lambda>j img. row_loop img j k t 0) s)"
  proof (rule for_loop_invariant [where I = "\<lambda>m s. distances_in img (D \<union> ?S m) s"])
    have "?S 0 = {}" by auto
    then show "distances_in img (D \<union> ?S 0) s" using d by (simp only: Un_empty_right)
  next
    fix m s' assume m: "0 \<le> m" "m < GetY s" and I: "distances_in img (D \<union> ?S m) s'"
    have "(m, k, t) \<notin> D \<union> ?S m" using new by auto
    from distances_in_row [OF ok I m(1) m(2) [unfolded n] row this]
    have "distances_in img (insert (m, k, t) (D \<union> ?S m)) (row_loop s' m k t 0)" .
    moreover have "insert (m, k, t) (D \<union> ?S m) = D \<union> ?S (m + 1)"
    proof -
      have "?S (m + 1) = insert (m, k, t) (?S m)"
      proof (intro set_eqI iffI)
        fix p assume "p \<in> ?S (m + 1)"
        then obtain j where p: "p = (j, k, t)" "0 \<le> j" "j < m + 1" by auto
        then have "j < m \<or> j = m" by linarith
        with p show "p \<in> insert (m, k, t) (?S m)" by auto
      next
        fix p assume "p \<in> insert (m, k, t) (?S m)"
        then show "p \<in> ?S (m + 1)" using m(1) by auto
      qed
      then show ?thesis by auto
    qed
    ultimately show "distances_in img (D \<union> ?S (m + 1)) (row_loop s' m k t 0)" by simp
  qed
  moreover have "?S (max 0 (GetY s)) = ?S (GetY img)" unfolding n by auto
  ultimately show ?thesis by simp
qed

lemma distances_in_k_loop:
  assumes ok: "image_ok img" and d: "distances_in img D s"
    and row: "0 \<le> t" "t < GetT img"
    and new: "\<forall>j k. (j, k, t) \<notin> D"
  shows "distances_in img
           (D \<union> {(j, k, t) | j k. 0 \<le> j \<and> j < GetY img \<and> 0 \<le> k \<and> k < GetZ img})
           (for_loop 0 (GetZ s) (\<lambda>k img.
              for_loop 0 (GetY img) (\<lambda>j img. row_loop img j k t 0) img) s)"
proof -
  have n: "GetZ s = GetZ img" using d by (simp add: distances_in_def same_shape_def)
  let ?S = "\<lambda>m::int. {(j, k, t) | j k::int. 0 \<le> j \<and> j < GetY img \<and> 0 \<le> k \<and> k < m}"
  have "distances_in img (D \<union> ?S (max 0 (GetZ s)))
           (for_loop 0 (GetZ s) (\<lambda>k img.
              for_loop 0 (GetY img) (\<lambda>j img. row_loop img j k t 0) img) s)"
  proof (rule for_loop_invariant [where I = "\<lambda>m s. distances_in img (D \<union> ?S m) s"])
    have "?S 0 = {}" by auto
    then show "distances_in img (D \<union> ?S 0) s" using d by (simp only: Un_empty_right)
  next
    fix m s' assume m: "0 \<le> m" "m < GetZ s" and I: "distances_in img (D \<union> ?S m) s'"
    have "\<forall>j. (j, m, t) \<notin> D \<union> ?S m" using new by auto
    from distances_in_j_loop [OF ok I m(1) m(2) [unfolded n] row this]
    have "distances_in img (D \<union> ?S m \<union> {(j, m, t) | j. 0 \<le> j \<and> j < GetY img})
           (for_loop 0 (GetY s') (\<lambda>j img. row_loop img j m t 0) s')" .
    moreover have "D \<union> ?S m \<union> {(j, m, t) | j. 0 \<le> j \<and> j < GetY img} = D \<union> ?S (m + 1)"
    proof -
      have "?S (m + 1) = ?S m \<union> {(j, m, t) | j. 0 \<le> j \<and> j < GetY img}"
      proof (intro set_eqI iffI)
        fix p assume "p \<in> ?S (m + 1)"
        then obtain j k where p: "p = (j, k, t)" "0 \<le> j" "j < GetY img" "0 \<le> k" "k < m + 1"
          by auto
        then have "k < m \<or> k = m" by linarith
        with p show "p \<in> ?S m \<union> {(j, m, t) | j. 0 \<le> j \<and> j < GetY img}" by auto
      next
        fix p assume "p \<in> ?S m \<union> {(j, m, t) | j. 0 \<le> j \<and> j < GetY img}"
        then show "p \<in> ?S (m + 1)" using m(1) by auto
      qed
      then show ?thesis by auto
    qed
    ultimately show "distances_in img (D \<union> ?S (m + 1))
           (for_loop 0 (GetY s') (\<lambda>j img. row_loop img j m t 0) s')" by simp
  qed
  moreover have "?S (max 0 (GetZ s)) = ?S (GetZ img)" unfolding n by auto
  ultimately show ?thesis by simp
qed

lemma distances_in_t_loop:
  assumes ok: "image_ok img"
  shows "distances_in img
           {(j, k, t) | j k t. 0 \<le> j \<and> j < GetY img \<and> 0 \<le> k \<and> k < GetZ img \<and>
                              0 \<le> t \<and> t < GetT img}
           (for_loop 0 (GetT img) (\<lambda>t img. for_loop 0 (GetZ img) (\<lambda>k img.
              for_loop 0 (GetY img) (\<lambda>j img. row_loop img j k t 0) img) img) img)"
proof -
  let ?S = "\<lambda>m::int. {(j, k, t) | j k t::int. 0 \<le> j \<and> j < GetY img \<and> 0 \<le> k \<and> k < GetZ img \<and>
                              0 \<le> t \<and> t < m}"
  have "distances_in img (?S (max 0 (GetT img)))
           (for_loop 0 (GetT img) (\<lambda>t img. for_loop 0 (GetZ img) (\<lambda>k img.
              for_loop 0 (GetY img) (\<lambda>j img. row_loop img j k t 0) img) img) img)"
  proof (rule for_loop_invariant [where I = "\<lambda>m s. distances_in img (?S m) s"])
    have "?S 0 = {}" by auto
    then show "distances_in img (?S 0) img" by (simp only: distances_in_start)
  next
    fix m s' assume m: "0 \<le> m" "m < GetT img" and I: "distances_in img (?S m) s'"
    have "\<forall>j k. (j, k, m) \<notin> ?S m" by auto
    from distances_in_k_loop [OF ok I m this]
    have "distances_in img
           (?S m \<union> {(j, k, m) | j k. 0 \<le> j \<and> j < GetY img \<and> 0 \<le> k \<and> k < GetZ img})
           (for_loop 0 (GetZ s') (\<lambda>k img.
              for_loop 0 (GetY img) (\<lambda>j img. row_loop img j k m 0) img) s')" .
    moreover have "?S m \<union> {(j, k, m) | j k. 0 \<le> j \<and> j < GetY img \<and> 0 \<le> k \<and> k < GetZ img}
                   = ?S (m + 1)"
    proof (intro set_eqI iffI)
      fix p assume "p \<in> ?S (m + 1)"
      then obtain j k t where p: "p = (j, k, t)" "0 \<le> j" "j < GetY img" "0 \<le> k" "k < GetZ img"
          "0 \<le> t" "t < m + 1"
        by auto
      then have "t < m \<or> t = m" by linarith
      with p show "p \<in> ?S m \<union> {(j, k, m) | j k. 0 \<le> j \<and> j < GetY img \<and> 0 \<le> k \<and> k < GetZ img}"
        by auto
    next
      fix p assume "p \<in> ?S m \<union> {(j, k, m) | j k. 0 \<le> j \<and> j < GetY img \<and> 0 \<le> k \<and> k < GetZ img}"
      then show "p \<in> ?S (m + 1)" using m(1) by auto
    qed
    ultimately show "distances_in img (?S (m + 1))
           (for_loop 0 (GetZ s') (\<lambda>k img.
              for_loop 0 (GetY img) (\<lambda>j img. row_loop img j k m 0) img) s')" by simp
  qed
  moreover have "?S (max 0 (GetT img)) = ?S (GetT img)" by auto
  ultimately show ?thesis by simp
qed

lemma for_loop_count:
  fixes body :: "int \<Rightarrow> int \<times> int \<Rightarrow> int \<times> int"
  assumes "\<And>i s. fst s \<le> fst (body i s) \<and> (fst s < fst (body i s) \<longleftrightarrow> R i)"
  shows "fst s \<le> fst (for_loop a n body s) \<and>
         (fst s < fst (for_loop a n body s) \<longleftrightarrow> (\<exists>i. a \<le> i \<and> i < n \<and> R i))"
proof -
  let ?I = "\<lambda>m (s' :: int \<times> int). fst s \<le> fst s' \<and> (fst s < fst s' \<longleftrightarrow> (\<exists>i. a \<le> i \<and> i < m \<and> R i))"
  have "?I (max a n) (for_loop a n body s)"
  proof (rule for_loop_invariant [where I = ?I])
    show "?I a s" by auto
  next
    fix m s' assume m: "a \<le> m" "m < n" and I: "?I m s'"
    have ex: "(\<exists>i. a \<le> i \<and> i < m + 1 \<and> R i) \<longleftrightarrow> (\<exists>i. a \<le> i \<and> i < m \<and> R i) \<or> R m"
    proof
      assume "\<exists>i. a \<le> i \<and> i < m + 1 \<and> R i"
      then obtain i where i: "a \<le> i" "i < m + 1" "R i" by auto
      then have "i < m \<or> i = m" by linarith
      with i show "(\<exists>i. a \<le> i \<and> i < m \<and> R i) \<or> R m" by auto
    next
      assume "(\<exists>i. a \<le> i \<and> i < m \<and> R i) \<or> R m"
      then show "\<exists>i. a \<le> i \<and> i < m + 1 \<and> R i"
        using m(1) by (auto intro: exI [of _ m])
    qed
    from assms [of s' m] I show "?I (m + 1) (body m s')"
      unfolding ex by auto
  qed
  moreover have "(\<exists>i. a \<le> i \<and> i < max a n \<and> R i) \<longleftrightarrow> (\<exists>i. a \<le> i \<and> i < n \<and> R i)"
    by (auto simp add: max_def)
  ultimately show ?thesis by simp
qed

lemma count_padded_pos:
  "0 < fst (count_padded img) \<longleftrightarrow>
     (\<exists>t i j k. 0 \<le> t \<and> t < GetT img \<and> 0 \<le> i \<and> i < GetX img \<and> 0 \<le> j \<and> j < GetY img \<and>
        0 \<le> k \<and> k < GetZ img \<and> Get img i j k t < 0)"
proof -
  let ?k = "\<lambda>t i j. for_loop 0 (GetZ img) (\<lambda>k (n, m).
         if Get img i j k t < 0 then (n + 1, m) else (n, m + 1))"
  have k: "fst s \<le> fst (?k t i j s) \<and>
           (fst s < fst (?k t i j s) \<longleftrightarrow> (\<exists>k. 0 \<le> k \<and> k < GetZ img \<and> Get img i j k t < 0))"
    for t i j and s :: "int \<times> int"
    by (rule for_loop_count) (auto split: prod.splits)
  let ?j = "\<lambda>t i. for_loop 0 (GetY img) (?k t i)"
  have j: "fst s \<le> fst (?j t i s) \<and>
           (fst s < fst (?j t i s) \<longleftrightarrow> (\<exists>j. 0 \<le> j \<and> j < GetY img \<and>
              (\<exists>k. 0 \<le> k \<and> k < GetZ img \<and> Get img i j k t < 0)))"
    for t i and s :: "int \<times> int"
    by (rule for_loop_count) (rule k)
  let ?i = "\<lambda>t. for_loop 0 (GetX img) (?j t)"
  have i: "fst s \<le> fst (?i t s) \<and>
           (fst s < fst (?i t s) \<longleftrightarrow> (\<exists>i. 0 \<le> i \<and> i < GetX img \<and>
              (\<exists>j. 0 \<le> j \<and> j < GetY img \<and>
              (\<exists>k. 0 \<le> k \<and> k < GetZ img \<and> Get img i j k t < 0))))"
    for t and s :: "int \<times> int"
    by (rule for_loop_count) (rule j)
  have t: "fst s \<le> fst (for_loop 0 (GetT img) ?i s) \<and>
           (fst s < fst (for_loop 0 (GetT img) ?i s) \<longleftrightarrow> (\<exists>t. 0 \<le> t \<and> t < GetT img \<and>
              (\<exists>i. 0 \<le> i \<and> i < GetX img \<and>
              (\<exists>j. 0 \<le> j \<and> j < GetY img \<and>
              (\<exists>k. 0 \<le> k \<and> k < GetZ img \<and> Get img i j k t < 0)))))"
    for s :: "int \<times> int"
    by (rule for_loop_count) (rule i)
  from t [of "(0, 0)"] show ?thesis
    unfolding count_padded_def by auto
qed

lemma irtkPadding_Get:
  assumes ok: "image_ok img" and c: "in_image img x y z t"
  shows "Get (irtkPadding img padding) x y z t =
           (if Get img x y z t = - 1 then - (scan_run img y z t x - x) else Get img x y z t)"
proof (cases "0 < fst (count_padded img)")
  case True
  obtain n m where nm: "count_padded img = (n, m)" by (cases "count_padded img")
  with True have "irtkPadding img padding =
      for_loop 0 (GetT img) (\<lambda>t img. for_loop 0 (GetZ img) (\<lambda>k img.
              for_loop 0 (GetY img) (\<lambda>j img. row_loop img j k t 0) img) img) img"
    by (simp add: irtkPadding_def)
  moreover have "(y, z, t) \<in> {(j, k, t) | j k t. 0 \<le> j \<and> j < GetY img \<and> 0 \<le> k \<and> k < GetZ img \<and>
                              0 \<le> t \<and> t < GetT img}"
    using c by (simp add: in_image_def)
  ultimately show ?thesis
    using distances_in_t_loop [OF ok] c unfolding distances_in_def by simp
next
  case False
  obtain n m where nm: "count_padded img = (n, m)" by (cases "count_padded img")
  with False have same: "irtkPadding img padding = img"
    by (simp add: irtkPadding_def)
  have "\<not> Get img x y z t < 0"
    using False c unfolding count_padded_pos in_image_def by blast
  then show ?thesis by (simp add: same)
qed

text \<open>
  C8. \<^verbatim>\<open>irtkPadding(image, padding)\<close> changes only voxels with value \<open>-1\<close>: a voxel
  with any other value keeps it; a voxel at x-index \<open>x\<close> in a run of \<open>-1\<close> along the x
  axis that ends just before x-index \<open>l\<close> (the row ends there or the voxel at \<open>l\<close> is not
  \<open>-1\<close>) is set to \<open>-(l - x)\<close>; and an image with no negative voxel is left as it is.
\<close>

theorem irtkPadding_distances:
  assumes "image_ok img" and "in_image img x y z t"
  shows "(Get img x y z t \<noteq> - 1 \<longrightarrow> Get (irtkPadding img padding) x y z t = Get img x y z t) \<and>
         (\<forall>l. x < l \<and> l \<le> GetX img \<and> (\<forall>p. x \<le> p \<and> p < l \<longrightarrow> Get img p y z t = - 1) \<and>
              (l = GetX img \<or> Get img l y z t \<noteq> - 1) \<longrightarrow>
              Get (irtkPadding img padding) x y z t = - (l - x)) \<and>
         ((\<forall>x y z t. in_image img x y z t \<longrightarrow> \<not> Get img x y z t < 0) \<longrightarrow>
              irtkPadding img padding = img)"
proof (intro conjI allI impI)
  assume "Get img x y z t \<noteq> - 1"
  then show "Get (irtkPadding img padding) x y z t = Get img x y z t"
    by (simp add: irtkPadding_Get [OF assms])
next
  fix l
  assume l: "x < l \<and> l \<le> GetX img \<and> (\<forall>p. x \<le> p \<and> p < l \<longrightarrow> Get img p y z t = - 1) \<and>
              (l = GetX img \<or> Get img l y z t \<noteq> - 1)"
  then have "scan_run img y z t x = l"
    by (intro scan_run_unique) auto
  moreover have "Get img x y z t = - 1" using l by auto
  ultimately show "Get (irtkPadding img padding) x y z t = - (l - x)"
    by (simp add: irtkPadding_Get [OF assms])
next
  assume "\<forall>x y z t. in_image img x y z t \<longrightarrow> \<not> Get img x y z t < 0"
  then have "\<not> 0 < fst (count_padded img)"
    unfolding count_padded_pos in_image_def by blast
  moreover obtain n m where "count_padded img = (n, m)" by (cases "count_padded img")
  ultimately show "irtkPadding img padding = img"
    by (simp add: irtkPadding_def)
qed

theorem irtkPadding_distances_witness:
  "Get (irtkPadding
     \<lparr>GetX = 5, GetY = 1, GetZ = 1, GetT = 1, GetPointerToVoxels = [4, - 1, - 1, - 1, 7]\<rparr> 0)
     1 0 0 0 = - 3"
proof -
  let ?img = "\<lparr>GetX = 5, GetY = 1, GetZ = 1, GetT = 1, GetPointerToVoxels = [4, - 1, - 1, - 1, 7]\<rparr>"
  have ok: "image_ok ?img" by (simp add: image_ok_def GetNumberOfVoxels_def)
  have c: "in_image ?img 1 0 0 0" by (simp add: in_image_def)
  have run: "Get ?img p 0 0 0 = - 1" if "1 \<le> p \<and> p < 4" for p
  proof -
    from that have "p = 1 \<or> p = 2 \<or> p = 3" by auto
    then show ?thesis by (auto simp add: Get_def VoxelToIndex_def)
  qed
  have stop: "Get ?img 4 0 0 0 \<noteq> - 1" by (simp add: Get_def VoxelToIndex_def)
  have "(1::int) < 4 \<and> 4 \<le> GetX ?img \<and> (\<forall>p. 1 \<le> p \<and> p < 4 \<longrightarrow> Get ?img p 0 0 0 = - 1) \<and>
          (4 = GetX ?img \<or> Get ?img 4 0 0 0 \<noteq> - 1)"
    using run stop by simp
  with irtkPadding_distances [OF ok c, of 0, THEN conjunct2, THEN conjunct1, THEN spec, of 4]
  have "Get (irtkPadding ?img 0) 1 0 0 0 = - (4 - 1)"
    by (rule mp)
  then show ?thesis by simp
qed

section \<open>Lines, buffers and the stream\<close>

lemma extract_line_fits:
  "CHR 0x0A \<notin> set l \<Longrightarrow> length l \<le> n \<Longrightarrow>
   extract_line n (l @ CHR 0x0A # rest) = (l, rest, AtDelim)"
  by (induction l arbitrary: n) auto

lemma extract_line_last:
  "CHR 0x0A \<notin> set l \<Longrightarrow> length l \<le> n \<Longrightarrow> extract_line n l = (l, [], AtEof)"
  by (induction l arbitrary: n) auto

lemma extract_line_long:
  "CHR 0x0A \<notin> set l \<Longrightarrow> n < length l \<Longrightarrow>
   extract_line n (l @ rest) = (take n l, drop n l @ rest, AtLimit)"
proof (induction l arbitrary: n)
  case Nil
  then show ?case by simp
next
  case (Cons c l)
  show ?case
  proof (cases n)
    case 0
    with Cons.prems show ?thesis by auto
  next
    case (Suc m)
    with Cons.prems have "extract_line m (l @ rest) = (take m l, drop m l @ rest, AtLimit)"
      by (intro Cons.IH) auto
    with Suc Cons.prems show ?thesis by auto
  qed
qed

lemma getline_fits:
  assumes "CHR 0x0A \<notin> set l" and "length l \<le> 254"
  shows "getline (istream_of (l @ CHR 0x0A # rest)) 255 = (l, istream_of rest)"
  using extract_line_fits [OF assms, of rest]
  by (simp add: getline_def istream_of_def)

lemma getline_last:
  assumes "CHR 0x0A \<notin> set l" and "length l \<le> 254"
  shows "getline (istream_of l) 255 = (l, \<lparr>rdbuf = [], eofbit = True, failbit = (l = [])\<rparr>)"
  using extract_line_last [OF assms]
  by (simp add: getline_def istream_of_def)

lemma getline_long:
  assumes "CHR 0x0A \<notin> set l" and "254 < length l"
  shows "getline (istream_of (l @ rest)) 255 =
           (take 254 l, \<lparr>rdbuf = drop 254 l @ rest, eofbit = False, failbit = True\<rparr>)"
  using extract_line_long [OF assms, of rest]
  by (simp add: getline_def istream_of_def)

lemma strlen_0_iff: "strlen l = 0 \<longleftrightarrow> first_char l = CHR 0x00"
  by (cases l) (auto simp add: strlen_def c_str_def first_char_def)

lemma first_char_take: "0 < n \<Longrightarrow> first_char (take n l) = first_char l"
  by (cases l; cases n) (auto simp add: first_char_def)

lemma strchr_None: "ch \<notin> set l \<Longrightarrow> ch \<noteq> CHR 0x00 \<Longrightarrow> strchr l ch = None"
  by (induction l) auto

lemma strchr_Some:
  "strchr l ch = Some p \<Longrightarrow> ch \<noteq> CHR 0x00 \<Longrightarrow>
   p < length l \<and> l ! p = ch \<and> (\<forall>i<p. l ! i \<noteq> ch)"
proof (induction l arbitrary: p)
  case Nil
  then show ?case by simp
next
  case (Cons c l)
  show ?case
  proof (cases "c = ch")
    case True
    with Cons.prems show ?thesis by simp
  next
    case False
    with Cons.prems obtain q where q: "strchr l ch = Some q" "p = Suc q"
      by (auto split: if_splits)
    from Cons.IH [OF q(1) Cons.prems(2)] False q(2) show ?thesis
      by (auto simp add: nth_Cons split: nat.splits)
  qed
qed

lemma strchr_exists:
  "ch \<in> set (c_str l) \<Longrightarrow> \<exists>p. strchr l ch = Some p"
  by (induction l) (auto simp add: c_str_def)

lemma skip_blanks_bounds:
  "i \<le> skip_blanks b i \<and> skip_blanks b i \<le> max i (length b)"
proof (induction b i rule: skip_blanks.induct)
  case (1 buffer i)
  show ?case
  proof (cases "i < length buffer \<and> (buffer ! i = CHR '' '' \<or> buffer ! i = CHR 0x09)")
    case True
    then have unf: "skip_blanks buffer i = skip_blanks buffer (i + 1)"
      by (subst skip_blanks.simps) simp
    from "1.IH" True have "i + 1 \<le> skip_blanks buffer (i + 1) \<and>
        skip_blanks buffer (i + 1) \<le> max (i + 1) (length buffer)" by simp
    with True show ?thesis unfolding unf by auto
  next
    case False
    then have "skip_blanks buffer i = i" by (subst skip_blanks.simps) auto
    then show ?thesis by simp
  qed
qed

lemma skip_blanks_blank:
  "i \<le> k \<Longrightarrow> k < skip_blanks b i \<Longrightarrow> b ! k = CHR '' '' \<or> b ! k = CHR 0x09"
proof (induction b i rule: skip_blanks.induct)
  case (1 buffer i)
  show ?case
  proof (cases "i < length buffer \<and> (buffer ! i = CHR '' '' \<or> buffer ! i = CHR 0x09)")
    case True
    then have unf: "skip_blanks buffer i = skip_blanks buffer (i + 1)"
      by (subst skip_blanks.simps) simp
    show ?thesis
    proof (cases "k = i")
      case True
      with \<open>i < length buffer \<and> (buffer ! i = CHR '' '' \<or> buffer ! i = CHR 0x09)\<close>
      show ?thesis by simp
    next
      case False
      with "1.prems" unf have "i + 1 \<le> k" "k < skip_blanks buffer (i + 1)" by simp_all
      with "1.IH" True show ?thesis by simp
    qed
  next
    case False
    then have "skip_blanks buffer i = i" by (subst skip_blanks.simps) auto
    with "1.prems" show ?thesis by simp
  qed
qed

lemma skip_blanks_stop:
  "skip_blanks b i < length b \<Longrightarrow>
   b ! skip_blanks b i \<noteq> CHR '' '' \<and> b ! skip_blanks b i \<noteq> CHR 0x09"
proof (induction b i rule: skip_blanks.induct)
  case (1 buffer i)
  show ?case
  proof (cases "i < length buffer \<and> (buffer ! i = CHR '' '' \<or> buffer ! i = CHR 0x09)")
    case True
    then have unf: "skip_blanks buffer i = skip_blanks buffer (i + 1)"
      by (subst skip_blanks.simps) simp
    with "1.IH" True "1.prems" show ?thesis by simp
  next
    case False
    then have unf: "skip_blanks buffer i = i" by (subst skip_blanks.simps) auto
    with False "1.prems" show ?thesis by auto
  qed
qed

lemma read_line_skip:
  assumes "skippable l"
  shows "read_line (istream_of (l @ CHR 0x0A # rest)) buffer1 buffer2 =
         read_line (istream_of rest) l buffer2"
proof -
  from assms have l: "CHR 0x0A \<notin> set l" "length l \<le> 254"
    and skip: "strlen l = 0 \<or> first_char l = CHR ''#'' \<or> first_char l = CHR 0x0D"
    by (simp_all add: skippable_def)
  have "\<not> eof (istream_of (l @ CHR 0x0A # rest))" by (simp add: eof_def istream_of_def)
  then show ?thesis
    using skip by (subst read_line.simps) (simp add: getline_fits [OF l] Let_def)
qed

lemma read_line_skip_lines:
  assumes "\<forall>l\<in>set ls. skippable l"
  shows "read_line (istream_of (text_lines ls @ rest)) buffer1 buffer2 =
         read_line (istream_of rest) (last (buffer1 # ls)) buffer2"
  using assms
proof (induction ls arbitrary: buffer1)
  case Nil
  then show ?case by (simp add: text_lines_def)
next
  case (Cons l ls)
  have "read_line (istream_of (text_lines (l # ls) @ rest)) buffer1 buffer2 =
        read_line (istream_of (text_lines ls @ rest)) l buffer2"
    using Cons.prems read_line_skip [of l "text_lines ls @ rest" buffer1 buffer2]
    by (simp add: text_lines_def)
  also have "\<dots> = read_line (istream_of rest) (last (l # ls)) buffer2"
    using Cons.prems by (intro Cons.IH) simp
  finally show ?case by simp
qed

lemma read_line_at_end:
  "read_line (istream_of []) buffer1 buffer2 =
     Some (Return 0 \<lparr>rdbuf = [], eofbit = True, failbit = True\<rparr> [] buffer2)"
proof -
  have g: "getline (istream_of []) 255 = ([], \<lparr>rdbuf = [], eofbit = True, failbit = True\<rparr>)"
    by (simp add: getline_def istream_of_def)
  have "\<not> eof (istream_of [])" by (simp add: eof_def istream_of_def)
  then have "read_line (istream_of []) buffer1 buffer2 =
        read_line \<lparr>rdbuf = [], eofbit = True, failbit = True\<rparr> [] buffer2"
    by (subst read_line.simps) (simp add: g strlen_def c_str_def Let_def)
  also have "\<dots> = Some (Return 0 \<lparr>rdbuf = [], eofbit = True, failbit = True\<rparr> [] buffer2)"
    by (subst read_line.simps) (simp add: eof_def)
  finally show ?thesis .
qed

lemma read_line_accept:
  assumes "acceptable line" and "length line \<le> 254" and "strchr line (CHR ''='') = Some p"
  shows "read_line (istream_of (line @ CHR 0x0A # rest)) buffer1 buffer2 =
         Some (Return (int (strlen line)) (istream_of rest) line (Some (skip_blanks line (p + 1))))"
proof -
  from assms(1) have l: "CHR 0x0A \<notin> set line"
    and acc: "\<not> (strlen line = 0 \<or> first_char line = CHR ''#'' \<or> first_char line = CHR 0x0D)"
    by (simp_all add: acceptable_def)
  have "\<not> eof (istream_of (line @ CHR 0x0A # rest))" by (simp add: eof_def istream_of_def)
  then show ?thesis
    using acc assms(3)
    by (subst read_line.simps) (simp add: getline_fits [OF l assms(2)] Let_def)
qed

lemma getline_buffer:
  assumes "CHR 0x0A \<notin> set line" and "tail = [] \<or> hd tail = CHR 0x0A"
  shows "fst (getline (istream_of (line @ tail)) 255) = take 254 line"
proof (cases "length line \<le> 254")
  case True
  show ?thesis
  proof (cases tail)
    case Nil
    with True show ?thesis by (simp add: getline_last [OF assms(1)])
  next
    case (Cons c cs)
    with assms(2) have "tail = CHR 0x0A # cs" by simp
    with True show ?thesis by (simp add: getline_fits [OF assms(1)])
  qed
next
  case False
  then show ?thesis by (simp add: getline_long [OF assms(1)])
qed

lemma read_line_exit:
  assumes "acceptable line" and "CHR ''='' \<notin> set line"
    and "tail = [] \<or> hd tail = CHR 0x0A"
  shows "read_line (istream_of (line @ tail)) buffer1 buffer2 =
         Some (Exit 1 (''No valid line format'' @ [CHR 0x0A]))"
proof -
  from assms(1) have l: "CHR 0x0A \<notin> set line"
    and acc: "\<not> (strlen line = 0 \<or> first_char line = CHR ''#'' \<or> first_char line = CHR 0x0D)"
    by (simp_all add: acceptable_def)
  obtain b s where g: "getline (istream_of (line @ tail)) 255 = (b, s)"
    by (cases "getline (istream_of (line @ tail)) 255")
  with getline_buffer [OF l assms(3)] have b: "b = take 254 line" by simp
  have fc: "first_char b = first_char line" unfolding b by (rule first_char_take) simp
  have acc': "\<not> (strlen b = 0 \<or> first_char b = CHR ''#'' \<or> first_char b = CHR 0x0D)"
    using acc by (simp add: strlen_0_iff fc)
  have "CHR ''='' \<notin> set b" using assms(2) unfolding b by (auto dest: in_set_takeD)
  then have none: "strchr b (CHR ''='') = None" by (rule strchr_None) simp
  have "\<not> eof (istream_of (line @ tail))" by (simp add: eof_def istream_of_def)
  then show ?thesis
    using acc' none by (subst read_line.simps) (simp add: g Let_def)
qed

section \<open>Results of reading a parameter line\<close>

lemma returned_call_not_failed:
  assumes "read_line ins buffer1 buffer2 = Some r"
  shows "\<not> (failbit ins \<and> \<not> eofbit ins)"
proof (rule read_line.raw_induct [where P = "\<lambda>ins b1 b2 r. \<not> (failbit ins \<and> \<not> eofbit ins)"])
  show "read_line ins buffer1 buffer2 = Some r" by fact
next
  fix f ins buffer1 buffer2 r
  assume IH: "\<And>ins b1 b2 r. f ins b1 b2 = Some r \<Longrightarrow> \<not> (failbit ins \<and> \<not> eofbit ins)"
    and step: "(if eof ins = True then Some (Return 0 ins buffer1 buffer2)
      else (case getline ins 255 of (buffer1, ins) \<Rightarrow>
        let c = first_char buffer1
        in if strlen buffer1 = 0 \<or> c = CHR ''#'' \<or> c = CHR 0x0D
           then f ins buffer1 buffer2
           else (case strchr buffer1 (CHR ''='') of
                   None \<Rightarrow> Some (Exit 1 (''No valid line format'' @ [CHR 0x0A]))
                 | Some p \<Rightarrow>
                     let buffer2 = skip_blanks buffer1 (p + 1)
                     in Some (Return (int (strlen buffer1)) ins buffer1 (Some buffer2))))) = Some r"
  show "\<not> (failbit ins \<and> \<not> eofbit ins)"
  proof
    assume failed: "failbit ins \<and> \<not> eofbit ins"
    then have g: "getline ins 255 = ([], ins\<lparr>failbit := True\<rparr>)"
      by (simp add: getline_def)
    from step failed have "f (ins\<lparr>failbit := True\<rparr>) [] buffer2 = Some r"
      by (simp add: eof_def g strlen_def c_str_def)
    from IH [OF this] failed show False by simp
  qed
qed

lemma read_line_hangs:
  "failbit ins \<Longrightarrow> \<not> eofbit ins \<Longrightarrow> read_line ins buffer1 buffer2 = None"
  using returned_call_not_failed [of ins buffer1 buffer2]
  by (cases "read_line ins buffer1 buffer2") auto

lemma first_char_replicate: "0 < n \<Longrightarrow> first_char (replicate n c) = c"
  by (cases n) (simp_all add: first_char_def)

lemma read_line_last_skipped:
  assumes "skippable l"
  shows "read_line (istream_of l) buffer1 buffer2 =
         Some (Return 0 \<lparr>rdbuf = [], eofbit = True, failbit = (l = [])\<rparr> l buffer2)"
proof -
  from assms have l: "CHR 0x0A \<notin> set l" "length l \<le> 254"
    and skip: "strlen l = 0 \<or> first_char l = CHR ''#'' \<or> first_char l = CHR 0x0D"
    by (simp_all add: skippable_def)
  have "\<not> eof (istream_of l)" by (simp add: eof_def istream_of_def)
  then have "read_line (istream_of l) buffer1 buffer2 =
        read_line \<lparr>rdbuf = [], eofbit = True, failbit = (l = [])\<rparr> l buffer2"
    using skip by (subst read_line.simps) (simp add: getline_last [OF l] Let_def)
  also have "\<dots> = Some (Return 0 \<lparr>rdbuf = [], eofbit = True, failbit = (l = [])\<rparr> l buffer2)"
    by (subst read_line.simps) (simp add: eof_def)
  finally show ?thesis .
qed

lemma read_line_accept_last:
  assumes "acceptable line" and "length line \<le> 254" and "strchr line (CHR ''='') = Some p"
  shows "read_line (istream_of line) buffer1 buffer2 =
         Some (Return (int (strlen line)) \<lparr>rdbuf = [], eofbit = True, failbit = False\<rparr> line
                 (Some (skip_blanks line (p + 1))))"
proof -
  from assms(1) have l: "CHR 0x0A \<notin> set line"
    and acc: "\<not> (strlen line = 0 \<or> first_char line = CHR ''#'' \<or> first_char line = CHR 0x0D)"
    by (simp_all add: acceptable_def)
  from acc have "line \<noteq> []" by (auto simp add: strlen_def c_str_def)
  moreover have "\<not> eof (istream_of line)" by (simp add: eof_def istream_of_def)
  ultimately show ?thesis
    using acc assms(3)
    by (subst read_line.simps) (simp add: getline_last [OF l assms(2)] Let_def)
qed

lemma read_line_exit_fits:
  assumes "acceptable line" and "length line \<le> 254" and "strchr line (CHR ''='') = None"
    and "tail = [] \<or> hd tail = CHR 0x0A"
  shows "read_line (istream_of (line @ tail)) buffer1 buffer2 =
         Some (Exit 1 (''No valid line format'' @ [CHR 0x0A]))"
proof -
  from assms(1) have l: "CHR 0x0A \<notin> set line"
    and acc: "\<not> (strlen line = 0 \<or> first_char line = CHR ''#'' \<or> first_char line = CHR 0x0D)"
    by (simp_all add: acceptable_def)
  have ne: "\<not> eof (istream_of (line @ tail))" by (simp add: eof_def istream_of_def)
  show ?thesis
  proof (cases tail)
    case Nil
    with ne acc assms(3) show ?thesis
      by (subst read_line.simps) (simp add: getline_last [OF l assms(2)] Let_def)
  next
    case (Cons c cs)
    with assms(4) have tail: "tail = CHR 0x0A # cs" by simp
    from ne acc assms(3) show ?thesis
      unfolding tail
      by (subst read_line.simps) (simp add: getline_fits [OF l assms(2)] Let_def)
  qed
qed

text \<open>
  C4. When the line that \<^verbatim>\<open>read_line\<close> accepts (the first line of the stream that
  its loop does not skip) contains no \<open>=\<close>, the call does not return: it writes the
  diagnostic and ends the process with status 1.
\<close>

theorem read_line_fatal_without_equals:
  assumes "\<forall>l\<in>set ls. skippable l" and "acceptable line" and "CHR ''='' \<notin> set line"
    and "tail = [] \<or> hd tail = CHR 0x0A"
  shows "read_line (istream_of (text_lines ls @ line @ tail)) buffer1 buffer2 =
         Some (Exit 1 (''No valid line format'' @ [CHR 0x0A]))"
  by (simp only: read_line_skip_lines [OF assms(1)] read_line_exit [OF assms(2,3,4)])

theorem read_line_fatal_without_equals_witness:
  "read_line (istream_of (''# registration parameters'' @ [CHR 0x0A] @ [CHR 0x0A] @
      ''Epsilon 0.001'' @ [CHR 0x0A] @ ''No. of iterations = 40'')) [] None =
   Some (Exit 1 (''No valid line format'' @ [CHR 0x0A]))"
proof -
  have 1: "\<forall>l\<in>set [''# registration parameters'', []]. skippable l"
    by (simp add: skippable_def strlen_def c_str_def first_char_def)
  have 2: "acceptable ''Epsilon 0.001''"
    by (simp add: acceptable_def strlen_def c_str_def first_char_def)
  have 3: "CHR ''='' \<notin> set ''Epsilon 0.001''" by simp
  have 4: "CHR 0x0A # ''No. of iterations = 40'' = [] \<or>
           hd (CHR 0x0A # ''No. of iterations = 40'') = CHR 0x0A" by simp
  from read_line_fatal_without_equals [OF 1 2 3 4, of "[]" None]
  show ?thesis by (simp add: text_lines_def)
qed

text \<open>
  A stream with \<^verbatim>\<open>failbit\<close> set and \<^verbatim>\<open>eofbit\<close> clear stays so: for example,
  after a comment line of 255 characters, of which \<^verbatim>\<open>getline\<close> stores 254, the loop
  skips the comment, no later \<^verbatim>\<open>getline\<close> extracts anything or reaches the end of
  the input, and the call does not return the line \<^verbatim>\<open>A = 1\<close> that follows.
\<close>

lemma read_line_long_comment_never_returns:
  "read_line (istream_of (replicate 255 (CHR ''#'') @ [CHR 0x0A] @ ''A = 1'' @ [CHR 0x0A]))
     [] None = None"
proof -
  let ?l = "replicate 255 (CHR ''#'')"
  let ?rest = "[CHR 0x0A] @ ''A = 1'' @ [CHR 0x0A]"
  let ?s = "\<lparr>rdbuf = drop 254 ?l @ ?rest, eofbit = False, failbit = True\<rparr>"
  have g: "getline (istream_of (?l @ ?rest)) 255 = (take 254 ?l, ?s)"
    by (rule getline_long) simp_all
  have fc: "first_char (take 254 ?l) = CHR ''#''"
    by (simp add: first_char_take first_char_replicate)
  have "\<not> eof (istream_of (?l @ ?rest))" by (simp add: eof_def istream_of_def)
  then have "read_line (istream_of (?l @ ?rest)) [] None = read_line ?s (take 254 ?l) None"
    using fc by (subst read_line.simps) (simp only: g prod.case Let_def, simp)
  also have "\<dots> = None" by (rule read_line_hangs) simp_all
  finally show ?thesis .
qed

text \<open>
  The buffer holds at most 254 characters of a line: of a line \<^verbatim>\<open>A = xxx...\<close> of 260
  characters the call returns the first 254 only, leaving the stream failed.
\<close>

lemma read_line_long_line_truncated:
  "read_line (istream_of (''A = '' @ replicate 256 (CHR ''x'') @ [CHR 0x0A])) [] None =
   Some (Return 254 \<lparr>rdbuf = replicate 6 (CHR ''x'') @ [CHR 0x0A], eofbit = False, failbit = True\<rparr>
           (''A = '' @ replicate 250 (CHR ''x'')) (Some 4))"
proof -
  let ?line = "''A = '' @ replicate 256 (CHR ''x'')"
  let ?b = "''A = '' @ replicate 250 (CHR ''x'')"
  let ?s = "\<lparr>rdbuf = replicate 6 (CHR ''x'') @ [CHR 0x0A], eofbit = False, failbit = True\<rparr>"
  have "getline (istream_of (?line @ [CHR 0x0A])) 255 =
          (take 254 ?line, \<lparr>rdbuf = drop 254 ?line @ [CHR 0x0A], eofbit = False, failbit = True\<rparr>)"
    by (rule getline_long) simp_all
  then have g: "getline (istream_of (?line @ [CHR 0x0A])) 255 = (?b, ?s)" by simp
  have len: "strlen ?b = 254" by (simp add: strlen_def c_str_def takeWhile_replicate)
  have fc: "first_char ?b = CHR ''A''" by (simp add: first_char_def)
  have eq: "strchr ?b (CHR ''='') = Some 2" by simp
  have sk: "skip_blanks ?b (2 + 1) = 4" by (simp add: skip_blanks.simps)
  have "\<not> eof (istream_of (?line @ [CHR 0x0A]))" by (simp add: eof_def istream_of_def)
  then have "read_line (istream_of (?line @ [CHR 0x0A])) [] None =
             Some (Return (int (strlen ?b)) ?s ?b (Some (skip_blanks ?b (2 + 1))))"
    by (subst read_line.simps) (simp only: g prod.case Let_def len fc eq, simp)
  then show ?thesis unfolding len sk by simp
qed

text \<open>
  C5. Lines of more than 254 characters are neither skipped nor returned as the lines
  they are: after a comment line of 255 characters the call never returns the line
  \<^verbatim>\<open>A = 1\<close> that follows, and of a line \<^verbatim>\<open>A = xxx...\<close> of 260 characters it
  returns the first 254 characters only.
\<close>

theorem read_line_long_lines:
  "read_line (istream_of (replicate 255 (CHR ''#'') @ [CHR 0x0A] @ ''A = 1'' @ [CHR 0x0A]))
     [] None = None \<and>
   read_line (istream_of (''A = '' @ replicate 256 (CHR ''x'') @ [CHR 0x0A])) [] None =
   Some (Return 254 \<lparr>rdbuf = replicate 6 (CHR ''x'') @ [CHR 0x0A], eofbit = False, failbit = True\<rparr>
           (''A = '' @ replicate 250 (CHR ''x'')) (Some 4))"
  using read_line_long_comment_never_returns read_line_long_line_truncated by (rule conjI)

text \<open>
  C5, as amended. Empty lines and lines whose first character is \<open>#\<close> are skipped when
  they have at most 254 characters, and the call returns the line that follows them,
  when the loop accepts it, it has at most 254 characters and \<^verbatim>\<open>strchr\<close> finds its
  \<open>=\<close> at offset \<open>p\<close>: the return value, \<^verbatim>\<open>buffer1\<close> and \<^verbatim>\<open>buffer2\<close> are those of
  that line alone, whatever the skipped lines were.
\<close>

theorem read_line_skips_comments:
  assumes "\<forall>l\<in>set ls. CHR 0x0A \<notin> set l \<and> length l \<le> 254 \<and> (l = [] \<or> hd l = CHR ''#'')"
    and "acceptable line" and "length line \<le> 254" and "strchr line (CHR ''='') = Some p"
  shows "read_line (istream_of (text_lines ls @ line @ CHR 0x0A # rest)) buffer1 buffer2 =
         Some (Return (int (strlen line)) (istream_of rest) line (Some (skip_blanks line (p + 1))))"
proof -
  have "\<forall>l\<in>set ls. skippable l"
  proof
    fix l assume "l \<in> set ls"
    with assms(1) have l: "CHR 0x0A \<notin> set l" "length l \<le> 254" "l = [] \<or> hd l = CHR ''#''" by auto
    from l(3) have "strlen l = 0 \<or> first_char l = CHR ''#''"
      by (cases l) (auto simp add: strlen_def c_str_def first_char_def)
    with l show "skippable l" by (auto simp add: skippable_def)
  qed
  then show ?thesis
    by (simp only: read_line_skip_lines read_line_accept [OF assms(2,3,4)])
qed

theorem read_line_skips_comments_witness:
  "read_line (istream_of (''# Demons parameters'' @ [CHR 0x0A] @ [CHR 0x0A] @
      ''Epsilon = 0.001'' @ [CHR 0x0A] @ ''Smoothing = 1'')) ''old'' (Some 1) =
   Some (Return 15 (istream_of ''Smoothing = 1'') ''Epsilon = 0.001'' (Some 10))"
proof -
  let ?line = "''Epsilon = 0.001''"
  have 1: "\<forall>l\<in>set [''# Demons parameters'', []].
             CHR 0x0A \<notin> set l \<and> length l \<le> 254 \<and> (l = [] \<or> hd l = CHR ''#'')"
    by simp
  have 2: "acceptable ?line"
    by (simp add: acceptable_def strlen_def c_str_def first_char_def)
  have 3: "length ?line \<le> 254" by simp
  have 4: "strchr ?line (CHR ''='') = Some 8" by simp
  have 5: "skip_blanks ?line (8 + 1) = 10" by (simp add: skip_blanks.simps)
  from read_line_skips_comments [OF 1 2 3 4, of "''Smoothing = 1''" "''old''" "Some 1"]
  show ?thesis unfolding 5 by (simp add: text_lines_def strlen_def c_str_def)
qed

text \<open>
  C10. A line without \<open>=\<close> is accepted by the loop and ends the process, so the call
  does not return the length of every accepted line. A line of 255 characters whose
  first character is a carriage return does not fit the buffer: the loop skips what
  \<^verbatim>\<open>getline\<close> stored of it, the stream stays failed and the call never returns the
  line \<^verbatim>\<open>B = 2\<close> that follows. Of an accepted line of 260 characters the call returns
  254, the number of characters that the buffer holds.
\<close>

theorem read_line_exits_or_fails_on_long_lines:
  "read_line (istream_of (''Smoothing 1.5'' @ [CHR 0x0A])) [] None =
     Some (Exit 1 (''No valid line format'' @ [CHR 0x0A])) \<and>
   read_line (istream_of (CHR 0x0D # replicate 254 (CHR ''x'') @ [CHR 0x0A] @ ''B = 2'' @
       [CHR 0x0A])) [] None = None \<and>
   read_line (istream_of (''B ='' @ replicate 257 (CHR ''y'') @ [CHR 0x0A])) [] None =
     Some (Return 254 \<lparr>rdbuf = replicate 6 (CHR ''y'') @ [CHR 0x0A], eofbit = False, failbit = True\<rparr>
             (''B ='' @ replicate 251 (CHR ''y'')) (Some 3))"
proof (intro conjI)
  have "acceptable ''Smoothing 1.5''"
    by (simp add: acceptable_def strlen_def c_str_def first_char_def)
  from read_line_exit [OF this, of "[CHR 0x0A]" "[]" None]
  show "read_line (istream_of (''Smoothing 1.5'' @ [CHR 0x0A])) [] None =
     Some (Exit 1 (''No valid line format'' @ [CHR 0x0A]))" by simp
next
  let ?l = "CHR 0x0D # replicate 254 (CHR ''x'')"
  let ?rest = "[CHR 0x0A] @ ''B = 2'' @ [CHR 0x0A]"
  let ?s = "\<lparr>rdbuf = drop 254 ?l @ ?rest, eofbit = False, failbit = True\<rparr>"
  have g: "getline (istream_of (?l @ ?rest)) 255 = (take 254 ?l, ?s)"
    by (rule getline_long) simp_all
  have fc: "first_char (take 254 ?l) = CHR 0x0D"
    by (simp add: first_char_take) (simp add: first_char_def)
  have "\<not> eof (istream_of (?l @ ?rest))" by (simp add: eof_def istream_of_def)
  then have "read_line (istream_of (?l @ ?rest)) [] None = read_line ?s (take 254 ?l) None"
    using fc by (subst read_line.simps) (simp only: g prod.case Let_def, simp)
  also have "\<dots> = None" by (rule read_line_hangs) simp_all
  finally show "read_line (istream_of (CHR 0x0D # replicate 254 (CHR ''x'') @ [CHR 0x0A] @
       ''B = 2'' @ [CHR 0x0A])) [] None = None" by simp
next
  let ?line = "''B ='' @ replicate 257 (CHR ''y'')"
  let ?b = "''B ='' @ replicate 251 (CHR ''y'')"
  let ?s = "\<lparr>rdbuf = replicate 6 (CHR ''y'') @ [CHR 0x0A], eofbit = False, failbit = True\<rparr>"
  have "getline (istream_of (?line @ [CHR 0x0A])) 255 =
          (take 254 ?line, \<lparr>rdbuf = drop 254 ?line @ [CHR 0x0A], eofbit = False, failbit = True\<rparr>)"
    by (rule getline_long) simp_all
  then have g: "getline (istream_of (?line @ [CHR 0x0A])) 255 = (?b, ?s)" by simp
  have len: "strlen ?b = 254" by (simp add: strlen_def c_str_def takeWhile_replicate)
  have fc: "first_char ?b = CHR ''B''" by (simp add: first_char_def)
  have eq: "strchr ?b (CHR ''='') = Some 2" by simp
  have sk: "skip_blanks ?b (2 + 1) = 3" by (simp add: skip_blanks.simps)
  have "\<not> eof (istream_of (?line @ [CHR 0x0A]))" by (simp add: eof_def istream_of_def)
  then have "read_line (istream_of (?line @ [CHR 0x0A])) [] None =
             Some (Return (int (strlen ?b)) ?s ?b (Some (skip_blanks ?b (2 + 1))))"
    by (subst read_line.simps) (simp only: g prod.case Let_def len fc eq, simp)
  then show "read_line (istream_of (''B ='' @ replicate 257 (CHR ''y'') @ [CHR 0x0A])) [] None =
     Some (Return 254 \<lparr>rdbuf = replicate 6 (CHR ''y'') @ [CHR 0x0A], eofbit = False, failbit = True\<rparr>
             (''B ='' @ replicate 251 (CHR ''y'')) (Some 3))"
    unfolding len sk by simp
qed

text \<open>
  C10, as amended. Let the lines before the end of the input or before the accepted
  line be lines that fit the buffer (at most 254 characters) and that the loop skips:
  lines with an empty C string and lines whose first character is \<open>#\<close> or a carriage
  return. If the input ends after them (the last of them possibly without a newline),
  the call returns 0 and the process goes on. If a line follows that the loop accepts,
  that fits the buffer and in which \<^verbatim>\<open>strchr\<close> finds \<open>=\<close> at offset \<open>p\<close>, the call
  returns the length of the line's C string, \<^verbatim>\<open>buffer1\<close> holds the line and
  \<^verbatim>\<open>buffer2\<close> points at offset \<open>v\<close>, where \<open>p\<close> is the first \<open>=\<close> of the line, only
  spaces and tabs lie between \<open>p\<close> and \<open>v\<close>, and the character at \<open>v\<close> (the terminating
  NUL when \<open>v\<close> is the length of the line) is neither a space nor a tab. If the line that
  follows is accepted, fits the buffer and \<^verbatim>\<open>strchr\<close> finds no \<open>=\<close> in it, the call
  does not return: the process ends with status 1 after the diagnostic.
\<close>

theorem read_line_returns:
  assumes "\<forall>l\<in>set ls. skippable l"
  shows "(skippable l \<longrightarrow>
            read_line (istream_of (text_lines ls @ l)) buffer1 buffer2 =
              Some (Return 0 \<lparr>rdbuf = [], eofbit = True, failbit = (l = [])\<rparr> l buffer2)) \<and>
         (acceptable line \<and> length line \<le> 254 \<and> strchr line (CHR ''='') = Some p \<longrightarrow>
            read_line (istream_of (text_lines ls @ line @ CHR 0x0A # rest)) buffer1 buffer2 =
              Some (Return (int (strlen line)) (istream_of rest) line
                      (Some (skip_blanks line (p + 1)))) \<and>
            read_line (istream_of (text_lines ls @ line)) buffer1 buffer2 =
              Some (Return (int (strlen line)) \<lparr>rdbuf = [], eofbit = True, failbit = False\<rparr> line
                      (Some (skip_blanks line (p + 1)))) \<and>
            p < length line \<and> line ! p = CHR ''='' \<and> (\<forall>i<p. line ! i \<noteq> CHR ''='') \<and>
            p < skip_blanks line (p + 1) \<and> skip_blanks line (p + 1) \<le> length line \<and>
            (\<forall>i. p < i \<and> i < skip_blanks line (p + 1) \<longrightarrow>
                 line ! i = CHR '' '' \<or> line ! i = CHR 0x09) \<and>
            (skip_blanks line (p + 1) < length line \<longrightarrow>
                 line ! skip_blanks line (p + 1) \<noteq> CHR '' '' \<and>
                 line ! skip_blanks line (p + 1) \<noteq> CHR 0x09)) \<and>
         (acceptable line \<and> length line \<le> 254 \<and> strchr line (CHR ''='') = None \<and>
          (tail = [] \<or> hd tail = CHR 0x0A) \<longrightarrow>
            read_line (istream_of (text_lines ls @ line @ tail)) buffer1 buffer2 =
              Some (Exit 1 (''No valid line format'' @ [CHR 0x0A])))"
proof (intro conjI impI)
  assume "skippable l"
  then show "read_line (istream_of (text_lines ls @ l)) buffer1 buffer2 =
              Some (Return 0 \<lparr>rdbuf = [], eofbit = True, failbit = (l = [])\<rparr> l buffer2)"
    by (simp only: read_line_skip_lines [OF assms] read_line_last_skipped)
next
  assume a: "acceptable line \<and> length line \<le> 254 \<and> strchr line (CHR ''='') = None \<and>
          (tail = [] \<or> hd tail = CHR 0x0A)"
  then have acc: "acceptable line" and fits: "length line \<le> 254"
    and none: "strchr line (CHR ''='') = None" and tail: "tail = [] \<or> hd tail = CHR 0x0A"
    by simp_all
  show "read_line (istream_of (text_lines ls @ line @ tail)) buffer1 buffer2 =
              Some (Exit 1 (''No valid line format'' @ [CHR 0x0A]))"
    by (simp only: read_line_skip_lines [OF assms] read_line_exit_fits [OF acc fits none tail])
next
  assume a: "acceptable line \<and> length line \<le> 254 \<and> strchr line (CHR ''='') = Some p"
  then have acc: "acceptable line" and fits: "length line \<le> 254"
    and p: "strchr line (CHR ''='') = Some p" by simp_all
  show "read_line (istream_of (text_lines ls @ line @ CHR 0x0A # rest)) buffer1 buffer2 =
              Some (Return (int (strlen line)) (istream_of rest) line
                      (Some (skip_blanks line (p + 1))))"
    by (simp only: read_line_skip_lines [OF assms] read_line_accept [OF acc fits p])
  show "read_line (istream_of (text_lines ls @ line)) buffer1 buffer2 =
              Some (Return (int (strlen line)) \<lparr>rdbuf = [], eofbit = True, failbit = False\<rparr> line
                      (Some (skip_blanks line (p + 1))))"
    by (simp only: read_line_skip_lines [OF assms] read_line_accept_last [OF acc fits p])
  from strchr_Some [OF p] show pl: "p < length line" and "line ! p = CHR ''=''"
    and "\<forall>i<p. line ! i \<noteq> CHR ''=''" by simp_all
  from skip_blanks_bounds [of "p + 1" line] pl
  show "p < skip_blanks line (p + 1)" and "skip_blanks line (p + 1) \<le> length line"
    by simp_all
  show "\<forall>i. p < i \<and> i < skip_blanks line (p + 1) \<longrightarrow> line ! i = CHR '' '' \<or> line ! i = CHR 0x09"
    using skip_blanks_blank [of "p + 1" _ line] by auto
  show "line ! skip_blanks line (p + 1) \<noteq> CHR '' ''"
      and "line ! skip_blanks line (p + 1) \<noteq> CHR 0x09"
    if "skip_blanks line (p + 1) < length line"
    using skip_blanks_stop [OF that] by simp_all
qed

theorem read_line_returns_witness:
  "read_line (istream_of ([CHR 0x0D, CHR 0x0A] @ ''# levels'' @ [CHR 0x0A] @
      ''No. of levels ='' @ [CHR 0x09] @ '' 3'' @ [CHR 0x0A] @ ''rest'')) [] None =
     Some (Return 18 (istream_of ''rest'') (''No. of levels ='' @ [CHR 0x09] @ '' 3'') (Some 17)) \<and>
   read_line (istream_of ([CHR 0x0D, CHR 0x0A] @ ''# levels'')) [] None =
     Some (Return 0 \<lparr>rdbuf = [], eofbit = True, failbit = False\<rparr> ''# levels'' None) \<and>
   read_line (istream_of ([CHR 0x0D, CHR 0x0A] @ ''Step size 5'')) [] None =
     Some (Exit 1 (''No valid line format'' @ [CHR 0x0A]))"
proof -
  let ?line = "''No. of levels ='' @ [CHR 0x09] @ '' 3''"
  have 1: "\<forall>l\<in>set [[CHR 0x0D], ''# levels'']. skippable l"
    by (simp add: skippable_def strlen_def c_str_def first_char_def)
  have 2: "acceptable ?line \<and> length ?line \<le> 254 \<and> strchr ?line (CHR ''='') = Some 14"
    by (simp add: acceptable_def strlen_def c_str_def first_char_def)
  have 3: "skip_blanks ?line (14 + 1) = 17"
    by (simp add: skip_blanks.simps)
  have 4: "\<forall>l\<in>set [[CHR 0x0D]]. skippable l"
    by (simp add: skippable_def strlen_def c_str_def first_char_def)
  have 5: "skippable ''# levels''"
    by (simp add: skippable_def strlen_def c_str_def first_char_def)
  have 6: "acceptable ''Step size 5'' \<and> length ''Step size 5'' \<le> 254 \<and>
           strchr ''Step size 5'' (CHR ''='') = None \<and> ([] = [] \<or> hd [] = CHR 0x0A)"
    by (simp add: acceptable_def strlen_def c_str_def first_char_def)
  from read_line_returns [OF 1, THEN conjunct2, THEN conjunct1, THEN mp, OF 2, THEN conjunct1,
      of "''rest''" "[]" None]
    read_line_returns [OF 4, THEN conjunct1, THEN mp, OF 5, of "[]" None]
    read_line_returns [OF 4, THEN conjunct2, THEN conjunct2, THEN mp, OF 6, of "[]" None]
  show ?thesis
    unfolding 3 by (simp add: text_lines_def strlen_def c_str_def)
qed

end
